theory Spec2Isabelle
  imports Main
begin

section \<open>Playlist parsing: getURI and getChunklist\<close>

text \<open>
  Go errors are values; \<open>None\<close> is the nil error. A call that can panic returns
  \<open>Panic\<close> instead of a value.
\<close>

type_synonym error = string

datatype 'a outcome = Panic | Return 'a

text \<open>
  What \<open>m3u8.DecodeFrom\<close> hands back: an interface value (nil, a pointer to a master
  playlist or a pointer to a media playlist, each pointer possibly nil), the list type
  (the library's \<open>ListType\<close>, 0 meaning undefined) and an error. The decoder itself is
  the m3u8 library's; the functions below are given its result.
\<close>

datatype ListType = UNDEFINED | MASTER | MEDIA

record Variant =
  variant_URI :: string

record MediaSegment =
  segment_URI :: string

record MasterPlaylist =
  Variants :: "Variant option list"

record MediaPlaylist =
  Segments :: "MediaSegment option list"

datatype Playlist =
    NilPlaylist
  | Master "MasterPlaylist option"
  | Media "MediaPlaylist option"

type_synonym decoded = "Playlist \<times> ListType \<times> error option"

text \<open>
  \<open>getURI\<close>: the type assertion \<open>playlist.(*m3u8.MasterPlaylist)\<close> panics on any other
  dynamic type; \<open>||\<close> evaluates \<open>p.Variants[0]\<close> only when the length is 1.
\<close>

definition getURI :: "decoded \<Rightarrow> (string \<times> error option) outcome" where
  "getURI d =
     (case d of (playlist, listType, err) \<Rightarrow>
        if err \<noteq> None \<or> listType \<noteq> MASTER then Return ('''', err)
        else (case playlist of
                Master p \<Rightarrow>
                  (case p of
                     None \<Rightarrow> Return ('''', Some ''invalid m3u8 format'')
                   | Some mp \<Rightarrow>
                       if length (Variants mp) \<noteq> 1 then Return ('''', Some ''invalid m3u8 format'')
                       else (case Variants mp ! 0 of
                               None \<Rightarrow> Return ('''', Some ''invalid m3u8 format'')
                             | Some v \<Rightarrow> Return (variant_URI v, None)))
              | _ \<Rightarrow> Panic))"

text \<open>The loop of \<open>getChunklist\<close> over \<open>p.Segments\<close>, appending to \<open>chunklist\<close>.\<close>

fun chunklist_loop :: "MediaSegment option list \<Rightarrow> string list \<Rightarrow> string list" where
  "chunklist_loop [] chunklist = chunklist"
| "chunklist_loop (v # vs) chunklist =
     (case v of
        None \<Rightarrow> chunklist_loop vs chunklist
      | Some s \<Rightarrow> chunklist_loop vs (chunklist @ [segment_URI s]))"

text \<open>
  \<open>getChunklist\<close>: the nil slice is the empty list; reading \<open>p.Segments\<close> through a nil
  pointer panics, as the failed type assertion does.
\<close>

definition getChunklist :: "decoded \<Rightarrow> (string list \<times> error option) outcome" where
  "getChunklist d =
     (case d of (playlist, listType, err) \<Rightarrow>
        if err \<noteq> None \<or> listType \<noteq> MEDIA then Return ([], err)
        else (case playlist of
                Media p \<Rightarrow>
                  (case p of
                     None \<Rightarrow> Panic
                   | Some mp \<Rightarrow> Return (chunklist_loop (Segments mp) [], None))
              | _ \<Rightarrow> Panic))"

section \<open>Destination paths and downloadLink\<close>

text \<open>
  \<open>filepath.Split\<close> (Unix): the loop walks \<open>i\<close> down from the end of the path to the
  last separator and cuts after it. \<open>split_scan path n\<close> is the cut position found when
  the scan starts with \<open>n\<close> characters left.
\<close>

fun split_scan :: "string \<Rightarrow> nat \<Rightarrow> nat" where
  "split_scan path 0 = 0"
| "split_scan path (Suc i) = (if path ! i \<noteq> CHR ''/'' then split_scan path i else Suc i)"

definition filepath_Split :: "string \<Rightarrow> string \<times> string" where
  "filepath_Split path = (let i = split_scan path (length path) in (take i path, drop i path))"

text \<open>
  \<open>filepath.Clean\<close> (Unix) keeps an output buffer \<open>out\<close> and the index \<open>dotdot\<close> below
  which \<open>..\<close> must not backtrack. Each turn of its loop consumes one separator or one
  path element. \<open>split_sep\<close> cuts the path at the separators and \<open>clean_step\<close> is the
  effect of the loop on one element, in the order of the library's \<open>switch\<close>: the
  empty element (between two separators, before a leading or after a trailing one,
  where the loop only skips the separator), \<open>.\<close>, \<open>..\<close>, and a real element.
  \<open>backtrack\<close> is the inner loop that drops the last element of the buffer.
\<close>

function backtrack :: "nat \<Rightarrow> string \<Rightarrow> nat \<Rightarrow> nat" where
  "backtrack dotdot buf w =
     (if w > dotdot \<and> buf ! w \<noteq> CHR ''/'' then backtrack dotdot buf (w - 1) else w)"
  by pat_completeness auto
termination
  by (relation "measure (\<lambda>(dotdot, buf, w). w)") auto

fun split_sep :: "string \<Rightarrow> string list" where
  "split_sep [] = [[]]"
| "split_sep (c # cs) =
     (if c = CHR ''/'' then [] # split_sep cs
      else (case split_sep cs of [] \<Rightarrow> [[c]] | e # es \<Rightarrow> (c # e) # es))"

definition clean_step :: "bool \<Rightarrow> nat \<times> string \<Rightarrow> string \<Rightarrow> nat \<times> string" where
  "clean_step rooted st elem =
     (case st of (dotdot, out) \<Rightarrow>
        if elem = [] then (dotdot, out)
        else if elem = ''.'' then (dotdot, out)
        else if elem = ''..'' then
          (if length out > dotdot then
             (dotdot, take (backtrack dotdot out (length out - 1)) out)
           else if \<not> rooted then
             (let out' = (if length out > 0 then out @ ''/'' else out) @ ''..''
              in (length out', out'))
           else (dotdot, out))
        else
          (dotdot,
           (if rooted \<and> length out \<noteq> 1 \<or> \<not> rooted \<and> length out \<noteq> 0
            then out @ ''/'' else out) @ elem))"

definition filepath_Clean :: "string \<Rightarrow> string" where
  "filepath_Clean path =
     (if path = [] then ''.''
      else (let rooted = (hd path = CHR ''/'');
                out = snd (foldl (clean_step rooted)
                             (if rooted then (1, ''/'') else (0, [])) (split_sep path))
            in if length out = 0 then ''.'' else out))"

fun strings_Join :: "string list \<Rightarrow> string \<Rightarrow> string" where
  "strings_Join [] sep = []"
| "strings_Join [e] sep = e"
| "strings_Join (e # es) sep = e @ sep @ strings_Join es sep"

text \<open>\<open>filepath.Join\<close>: leading empty elements are skipped, the rest is joined and cleaned.\<close>

fun filepath_Join :: "string list \<Rightarrow> string" where
  "filepath_Join [] = []"
| "filepath_Join (e # es) =
     (if e \<noteq> [] then filepath_Clean (strings_Join (e # es) ''/'') else filepath_Join es)"

text \<open>
  One call of \<open>downloadLink\<close> meets the network and the file system four times; an
  \<open>attempt\<close> records what each of them answers: the error of \<open>http.Get\<close>, of
  \<open>os.Create\<close>, of \<open>io.Copy\<close> and of \<open>file.Close\<close>. The file system is the set of paths
  that exist. \<open>destination\<close> is the path \<open>downloadLink\<close> hands to \<open>os.Create\<close>.
\<close>

record attempt =
  get_err :: "error option"
  create_err :: "error option"
  copy_err :: "error option"
  close_err :: "error option"

definition destination :: "string \<Rightarrow> string \<Rightarrow> string" where
  "destination output link =
     (let fileName = snd (filepath_Split link) in filepath_Join [output, fileName])"

definition downloadLink ::
  "attempt \<Rightarrow> string \<Rightarrow> string \<Rightarrow> string set \<Rightarrow> error option \<times> string set" where
  "downloadLink a link output fs =
     (case get_err a of
        Some e \<Rightarrow> (Some e, fs)
      | None \<Rightarrow>
          (case create_err a of
             Some e \<Rightarrow> (Some e, fs)
           | None \<Rightarrow>
               (let err = copy_err a;
                    err = (if err = None then close_err a else err)
                in (err, insert (destination output link) fs))))"

section \<open>bulkDownload: goroutines, the wait group and the global semaphore\<close>

text \<open>
  \<open>MaxConcurrency\<close> and \<open>MaxRetryAttempts\<close> are constants of the package declared
  outside this file; they are parameters here.
\<close>

record config =
  MaxConcurrency :: nat
  MaxRetryAttempts :: nat

text \<open>
  The goroutine that \<open>bulkDownload\<close> starts for one link, as a small-step machine. Its
  program counter:
  \<^item> \<open>AtLoop\<close>: at the head of the \<open>for\<close> loop, before the test \<open>i < MaxRetryAttempts\<close>
    and the send \<open>sem <- struct{}{}\<close>;
  \<^item> \<open>Holding\<close>: the send has succeeded, \<open>downloadLink\<close> is about to run;
  \<^item> \<open>Downloaded\<close>: \<open>downloadLink\<close> has returned, the receive \<open><-sem\<close> is next;
  \<^item> \<open>AfterLoop\<close>: the loop is left, \<open>if err != nil\<close> is next;
  \<^item> \<open>Exiting\<close>: only the deferred \<open>wg.Done()\<close> is left;
  \<^item> \<open>Finished\<close>.

  \<open>link\<close> and \<open>out_dir\<close> are the values the closure captured, \<open>i\<close> and \<open>err\<close> its
  local variables. \<open>tries\<close> and \<open>acquires\<close> are instrumentation: they count the calls
  of \<open>downloadLink\<close> and the sends on \<open>sem\<close> of this goroutine, and no step reads them.
\<close>

datatype wpc = AtLoop | Holding | Downloaded | AfterLoop | Exiting | Finished

record worker =
  job :: nat
  idx :: nat
  link :: string
  out_dir :: string
  wpc :: wpc
  i :: nat
  err :: "error option"
  tries :: nat
  acquires :: nat

text \<open>
  One call of \<open>bulkDownload\<close>: its arguments, the position of the \<open>range\<close> loop, the
  counter of the wait group, \<open>errFlag\<close>, and where the calling goroutine stands:
  spawning, blocked in \<open>wg.Wait()\<close>, or returned with its result.
\<close>

datatype mpc = Spawning | Waiting | Returned "error option"

record jobstate =
  links :: "string list"
  output_dir :: string
  spawned :: nat
  wg :: nat
  errFlag :: bool
  mpc :: mpc

text \<open>
  The process: every call of \<open>bulkDownload\<close> in progress, every goroutine they have
  started, the number of tokens in the channel \<open>sem\<close> (one package-level channel of
  capacity \<open>MaxConcurrency\<close>), and the file system.
\<close>

record state =
  jobs :: "jobstate list"
  workers :: "worker list"
  sem :: nat
  fs :: "string set"

text \<open>
  The scheduler picks which goroutine moves next: the caller of job \<open>j\<close> or the
  \<open>n\<close>-th goroutine started. What the network and the file system answer to the
  \<open>a\<close>-th attempt on link \<open>k\<close> of job \<open>j\<close> is \<open>net j k a\<close>.
\<close>

datatype action = RunMain nat | RunWorker nat

type_synonym network = "nat \<Rightarrow> nat \<Rightarrow> nat \<Rightarrow> attempt"

text \<open>
  One step of a goroutine. A send on the full channel blocks: the step leaves the
  state as it is. The receive never blocks, since the goroutine's own token is in the
  channel.
\<close>

definition worker_step :: "config \<Rightarrow> network \<Rightarrow> nat \<Rightarrow> state \<Rightarrow> state" where
  "worker_step cfg net n s =
     (if n \<ge> length (workers s) then s
      else
        (let w = workers s ! n in
         case wpc w of
           AtLoop \<Rightarrow>
             if i w < MaxRetryAttempts cfg then
               (if sem s < MaxConcurrency cfg then
                  s\<lparr>sem := sem s + 1,
                    workers := (workers s)[n := w\<lparr>wpc := Holding, acquires := acquires w + 1\<rparr>]\<rparr>
                else s)
             else s\<lparr>workers := (workers s)[n := w\<lparr>wpc := AfterLoop\<rparr>]\<rparr>
         | Holding \<Rightarrow>
             (case downloadLink (net (job w) (idx w) (i w)) (link w) (out_dir w) (fs s) of
                (e, fs') \<Rightarrow>
                  s\<lparr>fs := fs',
                    workers := (workers s)[n := w\<lparr>err := e, tries := tries w + 1, wpc := Downloaded\<rparr>]\<rparr>)
         | Downloaded \<Rightarrow>
             s\<lparr>sem := sem s - 1,
               workers := (workers s)[n := (if err w = None then w\<lparr>wpc := AfterLoop\<rparr>
                                            else w\<lparr>i := i w + 1, wpc := AtLoop\<rparr>)]\<rparr>
         | AfterLoop \<Rightarrow>
             (if err w \<noteq> None then
                s\<lparr>jobs := (jobs s)[job w := (jobs s ! job w)\<lparr>errFlag := True\<rparr>],
                  workers := (workers s)[n := w\<lparr>wpc := Exiting\<rparr>]\<rparr>
              else s\<lparr>workers := (workers s)[n := w\<lparr>wpc := Exiting\<rparr>]\<rparr>)
         | Exiting \<Rightarrow>
             s\<lparr>jobs := (jobs s)[job w := (jobs s ! job w)\<lparr>wg := wg (jobs s ! job w) - 1\<rparr>],
               workers := (workers s)[n := w\<lparr>wpc := Finished\<rparr>]\<rparr>
         | Finished \<Rightarrow> s))"

text \<open>
  One step of the caller: \<open>wg.Add(1)\<close> and \<open>go func(link)\<close> for the next link, then
  \<open>wg.Wait()\<close>, which blocks while the counter is positive, then the result.
\<close>

definition main_step :: "nat \<Rightarrow> state \<Rightarrow> state" where
  "main_step j s =
     (if j \<ge> length (jobs s) then s
      else
        (let b = jobs s ! j in
         case mpc b of
           Spawning \<Rightarrow>
             if spawned b < length (links b) then
               s\<lparr>jobs := (jobs s)[j := b\<lparr>wg := wg b + 1, spawned := spawned b + 1\<rparr>],
                 workers := workers s @
                   [\<lparr>job = j, idx = spawned b, link = links b ! spawned b, out_dir = output_dir b,
                     wpc = AtLoop, i = 0, err = None, tries = 0, acquires = 0\<rparr>]\<rparr>
             else s\<lparr>jobs := (jobs s)[j := b\<lparr>mpc := Waiting\<rparr>]\<rparr>
         | Waiting \<Rightarrow>
             if wg b = 0 then
               s\<lparr>jobs := (jobs s)[j := b\<lparr>mpc := Returned (if errFlag b then Some ''lack of aac files'' else None)\<rparr>]\<rparr>
             else s
         | Returned r \<Rightarrow> s))"

fun step :: "config \<Rightarrow> network \<Rightarrow> state \<Rightarrow> action \<Rightarrow> state" where
  "step cfg net s (RunMain j) = main_step j s"
| "step cfg net s (RunWorker n) = worker_step cfg net n s"

text \<open>
  The process starts with the calls \<open>bulkDownload(list, output)\<close> that are going to
  run, none of them started, and an empty channel; \<open>run\<close> follows a schedule.
\<close>

definition bulkDownload_call :: "string list \<times> string \<Rightarrow> jobstate" where
  "bulkDownload_call c =
     \<lparr>links = fst c, output_dir = snd c, spawned = 0, wg = 0, errFlag = False, mpc = Spawning\<rparr>"

definition init :: "(string list \<times> string) list \<Rightarrow> string set \<Rightarrow> state" where
  "init calls fs0 = \<lparr>jobs = map bulkDownload_call calls, workers = [], sem = 0, fs = fs0\<rparr>"

definition run :: "config \<Rightarrow> network \<Rightarrow> action list \<Rightarrow> state \<Rightarrow> state" where
  "run cfg net sched s = foldl (step cfg net) s sched"

section \<open>Download and downloadProgram\<close>

text \<open>
  The fields of \<open>radiko.Prog\<close> and the values of \<open>radigo.OutputConfig\<close> that this
  file reads. What a run does to the outside is recorded as a list of events, in
  order: \<open>Log format arguments\<close> is a call of \<open>log.Printf\<close> (for \<open>log.Println\<close> the
  format is \<open>%s\<close>), the others are the calls that reach the wait group, the network,
  the file system or the tag library.
\<close>

type_synonym time = int

record Prog =
  Title :: string
  Pfm :: string
  Ft :: string
  To :: string
  Info :: string

record OutputConfig =
  FileBaseName :: string
  AbsPath :: string
  AudioFormat :: string

datatype event =
    Log string "string list"
  | SetupDirCall
  | WgAdd
  | WgDone
  | Go
  | Request string
  | RemoveAll string
  | BulkDownload "string list" string
  | ConcatAAC string
  | Rename string string
  | ConvertAACtoMP3 string string
  | TagOpen string
  | TagSet string string
  | TagComment string string
  | TagSave
  | TagClose

text \<open>
  How a goroutine ends: it completes, \<open>log.Fatal\<close> ends the process, it panics, or
  it never gets past \<open>bulkDownload\<close>. \<open>id3v2.Open\<close> answers in one of three ways: the
  file cannot be opened, and the tag is nil; the file opens and parsing fails, and the
  tag is the empty tag; or all is well.
\<close>

datatype panic = TypeAssertion | NilPointer | SliceBounds

datatype status = Completed | Fatal | Panicked panic | Blocked

datatype opened = OpenFailed error | ParseFailed error | Opened

definition isDigit :: "char \<Rightarrow> bool" where
  "isDigit c = (c \<in> set ''0123456789'')"

text \<open>
  Modelled from the spec: \<open>DatetimeLayout\<close> is declared outside this file. The spec
  takes the year from the first four characters of the start timestamp (its example is
  "202401010500"), so the layout is taken to begin with the four-digit year element
  \<open>2006\<close>. For that element \<open>time.Parse\<close> refuses a value of fewer than four
  characters or whose first four characters are not digits; \<open>later_fields\<close> stands for
  the parsing of the rest of the layout, given the year.
\<close>

definition ParseInLocation :: "(string \<Rightarrow> string \<Rightarrow> time option) \<Rightarrow> string \<Rightarrow> error + time" where
  "ParseInLocation later_fields v =
     (if length v < 4 \<or> \<not> isDigit (v ! 0) then Inl ''cannot parse as 2006''
      else if \<not> list_all isDigit (take 4 v) then Inl ''cannot parse as 2006''
      else (case later_fields (take 4 v) (drop 4 v) of
              None \<Rightarrow> Inl ''cannot parse''
            | Some t \<Rightarrow> Inr t))"

text \<open>
  The answers of everything \<open>Download\<close> calls outside this file: before the work is
  detached (\<open>caller_world\<close>) and in the detached goroutines (\<open>detached_world\<close>).
  \<open>client_Do n\<close> is the answer to the \<open>n\<close>-th request for the playlist, \<open>segments\<close>,
  \<open>scheduler\<close> and \<open>disk\<close> are the network, the schedule and the file system that the
  call of \<open>bulkDownload\<close> meets.
\<close>

record caller_world =
  later_fields :: "string \<Rightarrow> string \<Rightarrow> time option"
  CurrentTime :: time
  Format :: "time \<Rightarrow> string"
  NewOutputConfig :: "string \<Rightarrow> error + OutputConfig"
  SetupDir :: "error option"
  IsExist :: bool

record detached_world =
  limits :: config
  getArea :: "string \<Rightarrow> string"
  GetToken :: "string \<Rightarrow> string"
  client_Do :: "nat \<Rightarrow> error + string \<times> decoded"
  http_Get :: "string \<Rightarrow> error + decoded"
  TempAACDir :: "error + string"
  segments :: network
  scheduler :: "action list"
  disk :: "string set"
  ConcatAACFilesFromList :: "error + string"
  os_Rename :: "error option"
  ConvertAACtoMP3_err :: "error option"
  id3v2_Open :: opened
  tag_Save :: "error option"

definition TimeshiftProgM3U8 ::
  "detached_world \<Rightarrow> nat \<Rightarrow> string \<Rightarrow> Prog \<Rightarrow> (string \<times> error option) outcome \<times> event list" where
  "TimeshiftProgM3U8 w n stationID prog =
     (let areaID = getArea w stationID;
          token = GetToken w areaID;
          evs = [Log ''area-id: %s'' [areaID], Log ''token: %s'' [token], Request ''v2/api/ts/playlist.m3u8'']
      in case client_Do w n of
           Inl e \<Rightarrow> (Return ('''', Some e), evs)
         | Inr (st, body) \<Rightarrow> (getURI body, evs @ [Log ''%s'' [st]]))"

text \<open>
  \<open>retry.Do\<close> with \<open>retry.Attempts(MaxRetryAttempts)\<close>: the function is called until
  it returns no error or the attempts are used up; the delay callback, which logs,
  runs after every failed attempt but the last. Delays take no step here.
\<close>

fun retry_Do ::
  "detached_world \<Rightarrow> string \<Rightarrow> Prog \<Rightarrow> nat \<Rightarrow> nat \<Rightarrow> string \<Rightarrow> string outcome \<times> event list" where
  "retry_Do w stationID prog n 0 uri = (Return uri, [])"
| "retry_Do w stationID prog n (Suc left) uri =
     (case TimeshiftProgM3U8 w n stationID prog of
        (Panic, evs) \<Rightarrow> (Panic, evs)
      | (Return (uri', er), evs) \<Rightarrow>
          (case er of
             None \<Rightarrow> (Return uri', evs)
           | Some e \<Rightarrow>
               if left = 0 then (Return uri', evs)
               else (case retry_Do w stationID prog (Suc n) left uri' of
                       (r, evs') \<Rightarrow>
                         (r, evs @
                             [Log ''failed to get playlist.m3u8 for [%s]%s (%s): %s (retrying in %s)''
                                [stationID, Title prog, Ft prog, e]] @ evs'))))"

text \<open>
  The end of \<open>downloadProgram\<close>, from \<open>id3v2.Open\<close> on. With a nil tag the first
  setter dereferences nil; \<open>prog.Ft[:4]\<close> panics on fewer than four characters, after
  the first three setters have run. The deferred \<open>tag.Close()\<close> runs where the tag is
  not nil.
\<close>

definition tagging :: "detached_world \<Rightarrow> Prog \<Rightarrow> OutputConfig \<Rightarrow> status \<times> event list" where
  "tagging w prog output =
     (case id3v2_Open w of
        OpenFailed e \<Rightarrow>
          (Panicked NilPointer,
           [TagOpen (AbsPath output), Log ''error while opening the output file: %s'' [e]])
      | opened \<Rightarrow>
          (let evs = TagOpen (AbsPath output) #
                 (case opened of
                    ParseFailed e \<Rightarrow> [Log ''error while opening the output file: %s'' [e]]
                  | _ \<Rightarrow> []) @
                 [TagSet ''Title'' (FileBaseName output), TagSet ''Artist'' (Pfm prog),
                  TagSet ''Album'' (Title prog)]
           in if length (Ft prog) < 4 then (Panicked SliceBounds, evs @ [TagClose])
              else (Completed,
                    evs @ [TagSet ''Year'' (take 4 (Ft prog)), TagComment ''jpn'' (Info prog), TagSave] @
                    (case tag_Save w of
                       Some e \<Rightarrow> [Log ''error while saving a tag: %s'' [e]]
                     | None \<Rightarrow> []) @
                    [Log ''+file saved: %s'' [AbsPath output], TagClose])))"

text \<open>
  The \<open>switch\<close> on the audio format and the steps after it. \<open>log.Fatal\<close> ends the
  process without running deferred calls.
\<close>

definition finalize :: "detached_world \<Rightarrow> Prog \<Rightarrow> OutputConfig \<Rightarrow> string \<Rightarrow> status \<times> event list" where
  "finalize w prog output concatedFile =
     (if AudioFormat output = ''aac'' then
        (case os_Rename w of
           Some e \<Rightarrow> (Completed, [Rename concatedFile (AbsPath output),
                                    Log ''failed to output a result file: %s'' [e]])
         | None \<Rightarrow>
             (case tagging w prog output of
                (st, evs) \<Rightarrow> (st, Rename concatedFile (AbsPath output) # evs)))
      else if AudioFormat output = ''mp3'' then
        (case ConvertAACtoMP3_err w of
           Some e \<Rightarrow> (Completed, [ConvertAACtoMP3 concatedFile (AbsPath output),
                                    Log ''failed to output a result file: %s'' [e]])
         | None \<Rightarrow>
             (case tagging w prog output of
                (st, evs) \<Rightarrow> (st, ConvertAACtoMP3 concatedFile (AbsPath output) # evs)))
      else (Fatal, [Log ''invalid file format'' []]))"

text \<open>
  The call of \<open>bulkDownload\<close> is the job of the process above; it returns what the job
  returns, and does not return while the schedule has not brought the job to its end.
\<close>

definition download_and_concat ::
  "detached_world \<Rightarrow> Prog \<Rightarrow> OutputConfig \<Rightarrow> string list \<Rightarrow> string \<Rightarrow> status \<times> event list" where
  "download_and_concat w prog output chunklist aacDir =
     (case mpc (jobs (run (limits w) (segments w) (scheduler w) (init [(chunklist, aacDir)] (disk w))) ! 0) of
        Returned r \<Rightarrow>
          (case r of
             Some e \<Rightarrow> (Completed, [BulkDownload chunklist aacDir,
                                      Log ''failed to download aac files: %s'' [e]])
           | None \<Rightarrow>
               (case ConcatAACFilesFromList w of
                  Inl e \<Rightarrow> (Completed, [BulkDownload chunklist aacDir, ConcatAAC aacDir,
                                         Log ''failed to concat aac files: %s'' [e]])
                | Inr concatedFile \<Rightarrow>
                    (case finalize w prog output concatedFile of
                       (st, evs) \<Rightarrow> (st, [BulkDownload chunklist aacDir, ConcatAAC aacDir] @ evs))))
      | _ \<Rightarrow> (Blocked, [BulkDownload chunklist aacDir]))"

text \<open>
  \<open>downloadProgram\<close>; the deferred \<open>os.RemoveAll(aacDir)\<close> and \<open>wg.Done()\<close> run on
  return and on panic.
\<close>

definition downloadProgram ::
  "detached_world \<Rightarrow> Prog \<Rightarrow> string \<Rightarrow> OutputConfig \<Rightarrow> status \<times> event list" where
  "downloadProgram w prog uri output =
     (case http_Get w uri of
        Inl e \<Rightarrow> (Completed, [Request uri, Log ''failed to get chunklist: %s'' [e], WgDone])
      | Inr body \<Rightarrow>
          (case getChunklist body of
             Panic \<Rightarrow> (Panicked TypeAssertion, [Request uri, WgDone])
           | Return (chunklist, er) \<Rightarrow>
               (case er of
                  Some e \<Rightarrow> (Completed, [Request uri, Log ''failed to get chunklist: %s'' [e], WgDone])
                | None \<Rightarrow>
                    (case TempAACDir w of
                       Inl e \<Rightarrow>
                         (Completed, [Request uri, Log ''failed to create the aac dir: %s'' [e], WgDone])
                     | Inr aacDir \<Rightarrow>
                         (case download_and_concat w prog output chunklist aacDir of
                            (st, evs) \<Rightarrow>
                              (st, Request uri # evs @
                                   (if st = Fatal \<or> st = Blocked then []
                                    else [RemoveAll aacDir, WgDone])))))))"

record result =
  ret :: "error option"
  events :: "event list"
  detached :: "status option"

text \<open>
  The goroutine \<open>Download\<close> starts, and \<open>Download\<close> itself: its return value, the
  events of the whole run, and how the detached work ended, if it was started.
\<close>

definition detached_job ::
  "detached_world \<Rightarrow> Prog \<Rightarrow> string \<Rightarrow> OutputConfig \<Rightarrow> status \<times> event list" where
  "detached_job w prog stationID output =
     (case retry_Do w stationID prog 0 (MaxRetryAttempts (limits w)) [] of
        (Panic, evs) \<Rightarrow> (Panicked TypeAssertion, evs)
      | (Return uri, evs) \<Rightarrow>
          if length uri = 0 then (Completed, evs @ [WgDone])
          else (case downloadProgram w prog uri output of
                  (st, evs') \<Rightarrow>
                    (st, evs @
                         [Log ''start downloading [%s]%s (%s): %s'' [stationID, Title prog, Ft prog, uri], Go]
                         @ evs')))"

definition Download :: "caller_world \<Rightarrow> detached_world \<Rightarrow> Prog \<Rightarrow> string \<Rightarrow> result" where
  "Download c w prog stationID =
     (let title = Title prog; start = Ft prog
      in case ParseInLocation (later_fields c) start of
           Inl e \<Rightarrow>
             \<lparr>ret = Some (''invalid start time format '' @ [CHR 0x27] @ start @ [CHR 0x27] @ '': '' @ e),
              events = [], detached = None\<rparr>
         | Inr startTime \<Rightarrow>
             if startTime > CurrentTime c then
               \<lparr>ret = None,
                events = [Log ''the program is in the future [%s]%s (%s)'' [stationID, title, start]],
                detached = None\<rparr>
             else
               (case NewOutputConfig c (Format c startTime @ ''_'' @ stationID @ ''_'' @ title) of
                  Inl e \<Rightarrow>
                    \<lparr>ret = Some (''failed to configure output: '' @ e), events = [], detached = None\<rparr>
                | Inr output \<Rightarrow>
                    (case SetupDir c of
                       Some e \<Rightarrow>
                         \<lparr>ret = Some (''failed to setup the output dir: '' @ e),
                          events = [SetupDirCall], detached = None\<rparr>
                     | None \<Rightarrow>
                         if IsExist c then
                           \<lparr>ret = None,
                            events = [SetupDirCall,
                                      Log ''skip [%s]%s at %s'' [stationID, title, start],
                                      Log ''the output file already exists: %s'' [AbsPath output]],
                            detached = None\<rparr>
                         else
                           (case detached_job w prog stationID output of
                              (st, evs) \<Rightarrow>
                                \<lparr>ret = None, events = [SetupDirCall, WgAdd, Go] @ evs,
                                 detached = Some st\<rparr>))))"

section \<open>Notions used in the properties\<close>

text \<open>
  An attempt succeeds when none of its four calls fails; the goroutines that hold a slot
  of the semaphore are those between the send and the receive.
\<close>

definition attempt_ok :: "attempt \<Rightarrow> bool" where
  "attempt_ok a = (get_err a = None \<and> create_err a = None \<and> copy_err a = None \<and> close_err a = None)"

definition holding :: "worker \<Rightarrow> bool" where
  "holding w = (wpc w = Holding \<or> wpc w = Downloaded)"

definition holders :: "state \<Rightarrow> nat" where
  "holders s = length (filter holding (workers s))"

definition sem_inv :: "config \<Rightarrow> state \<Rightarrow> bool" where
  "sem_inv cfg s = (sem s = holders s \<and> sem s \<le> MaxConcurrency cfg)"

text \<open>
  When a step leaves the state as it is: the goroutine does not exist, has finished, or
  waits to send on the full channel; the caller does not exist, has returned, or waits
  in \<open>wg.Wait()\<close>.
\<close>

definition worker_blocked :: "config \<Rightarrow> state \<Rightarrow> nat \<Rightarrow> bool" where
  "worker_blocked cfg s n =
     (n \<ge> length (workers s) \<or> wpc (workers s ! n) = Finished \<or>
      (wpc (workers s ! n) = AtLoop \<and> i (workers s ! n) < MaxRetryAttempts cfg \<and>
       \<not> sem s < MaxConcurrency cfg))"

definition main_blocked :: "state \<Rightarrow> nat \<Rightarrow> bool" where
  "main_blocked s j =
     (j \<ge> length (jobs s) \<or> (\<exists>r. mpc (jobs s ! j) = Returned r) \<or>
      (mpc (jobs s ! j) = Waiting \<and> wg (jobs s ! j) \<noteq> 0))"

text \<open>
  A goroutine has left its loop; it has declared its link failed once it is past
  \<open>errFlag = true\<close>; a link exhausts its retry budget when all \<open>MaxRetryAttempts\<close>
  attempts on it fail.
\<close>

definition exited :: "worker \<Rightarrow> bool" where
  "exited w = (wpc w = AfterLoop \<or> wpc w = Exiting \<or> wpc w = Finished)"

definition declared_failed :: "worker \<Rightarrow> bool" where
  "declared_failed w = ((wpc w = Exiting \<or> wpc w = Finished) \<and> err w \<noteq> None)"

definition exhausted :: "config \<Rightarrow> network \<Rightarrow> nat \<Rightarrow> nat \<Rightarrow> bool" where
  "exhausted cfg net j k = list_all (\<lambda>a. \<not> attempt_ok (net j k a)) [0..<MaxRetryAttempts cfg]"

text \<open>
  What holds of every goroutine at every moment, by program counter: how \<open>i\<close>, \<open>err\<close>
  and the two counters relate to the attempts made so far.
\<close>

definition winv :: "config \<Rightarrow> network \<Rightarrow> worker \<Rightarrow> bool" where
  "winv cfg net w \<longleftrightarrow>
     i w \<le> MaxRetryAttempts cfg \<and>
     (\<forall>a<i w. \<not> attempt_ok (net (job w) (idx w) a)) \<and>
     (wpc w = AtLoop \<longrightarrow> tries w = i w \<and> acquires w = i w \<and> (err w = None \<longleftrightarrow> i w = 0)) \<and>
     (wpc w = Holding \<longrightarrow> i w < MaxRetryAttempts cfg \<and> tries w = i w \<and> acquires w = i w + 1) \<and>
     (wpc w = Downloaded \<longrightarrow>
        i w < MaxRetryAttempts cfg \<and> tries w = i w + 1 \<and> acquires w = i w + 1 \<and>
        (err w = None \<longleftrightarrow> attempt_ok (net (job w) (idx w) (i w)))) \<and>
     (exited w \<longrightarrow>
        acquires w = tries w \<and>
        (if err w = None
         then (MaxRetryAttempts cfg = 0 \<and> tries w = 0 \<and> i w = 0) \<or>
              (i w < MaxRetryAttempts cfg \<and> tries w = i w + 1 \<and>
               attempt_ok (net (job w) (idx w) (i w)))
         else i w = MaxRetryAttempts cfg \<and> tries w = i w \<and> 0 < i w))"

definition workers_inv :: "config \<Rightarrow> network \<Rightarrow> state \<Rightarrow> bool" where
  "workers_inv cfg net s = (\<forall>m<length (workers s). winv cfg net (workers s ! m))"

text \<open>
  What holds of the process at every moment: the arguments of the calls do not change;
  every goroutine belongs to a call and carries its link; the goroutines of a call are
  those of the links ranged over so far; the wait group counts the goroutines that have
  not finished; \<open>errFlag\<close> is set exactly when a goroutine has declared its link
  failed; a call that has returned had the counter at zero and reports \<open>errFlag\<close>; the
  file of a successful attempt exists; the channel holds one token per slot holder.
\<close>

definition static_inv :: "(string list \<times> string) list \<Rightarrow> state \<Rightarrow> bool" where
  "static_inv calls s =
     (length (jobs s) = length calls \<and>
      (\<forall>j<length calls.
         links (jobs s ! j) = fst (calls ! j) \<and> output_dir (jobs s ! j) = snd (calls ! j)))"

definition ids_inv :: "state \<Rightarrow> bool" where
  "ids_inv s =
     (\<forall>m<length (workers s).
        job (workers s ! m) < length (jobs s) \<and>
        idx (workers s ! m) < spawned (jobs s ! job (workers s ! m)) \<and>
        link (workers s ! m) = links (jobs s ! job (workers s ! m)) ! idx (workers s ! m) \<and>
        out_dir (workers s ! m) = output_dir (jobs s ! job (workers s ! m)))"

definition spawn_inv :: "state \<Rightarrow> bool" where
  "spawn_inv s =
     (\<forall>j<length (jobs s).
        spawned (jobs s ! j) \<le> length (links (jobs s ! j)) \<and>
        (mpc (jobs s ! j) \<noteq> Spawning \<longrightarrow> spawned (jobs s ! j) = length (links (jobs s ! j))) \<and>
        (\<forall>k<spawned (jobs s ! j).
           \<exists>m<length (workers s). job (workers s ! m) = j \<and> idx (workers s ! m) = k))"

definition wg_inv :: "state \<Rightarrow> bool" where
  "wg_inv s =
     (\<forall>j<length (jobs s).
        wg (jobs s ! j) = length (filter (\<lambda>w. job w = j \<and> wpc w \<noteq> Finished) (workers s)))"

definition flag_inv :: "state \<Rightarrow> bool" where
  "flag_inv s =
     (\<forall>j<length (jobs s).
        errFlag (jobs s ! j) \<longleftrightarrow>
          (\<exists>m<length (workers s). job (workers s ! m) = j \<and> declared_failed (workers s ! m)))"

definition ret_inv :: "state \<Rightarrow> bool" where
  "ret_inv s =
     (\<forall>j<length (jobs s). \<forall>r. mpc (jobs s ! j) = Returned r \<longrightarrow>
        wg (jobs s ! j) = 0 \<and>
        r = (if errFlag (jobs s ! j) then Some ''lack of aac files'' else None))"

definition fs_inv :: "state \<Rightarrow> bool" where
  "fs_inv s =
     (\<forall>m<length (workers s).
        err (workers s ! m) = None \<and> 0 < tries (workers s ! m) \<longrightarrow>
        destination (out_dir (workers s ! m)) (link (workers s ! m)) \<in> fs s)"

definition fs_ok :: "state \<Rightarrow> worker \<Rightarrow> bool" where
  "fs_ok s w =
     (err w = None \<and> 0 < tries w \<longrightarrow>
      destination (out_dir w) (link w) \<in> fs s)"

definition job_inv :: "(string list \<times> string) list \<Rightarrow> state \<Rightarrow> bool" where
  "job_inv calls s =
     (static_inv calls s \<and> ids_inv s \<and> spawn_inv s \<and> wg_inv s \<and> flag_inv s \<and> ret_inv s \<and> fs_inv s)"

text \<open>
  A bound on the steps a goroutine and a caller can still take, and its sum over the
  process: every step that changes the state lowers it.
\<close>

definition worker_pot :: "config \<Rightarrow> worker \<Rightarrow> nat" where
  "worker_pot cfg w =
     (case wpc w of
        AtLoop \<Rightarrow> 3 * (MaxRetryAttempts cfg - i w) + 3
      | Holding \<Rightarrow> 3 * (MaxRetryAttempts cfg - Suc (i w)) + 5
      | Downloaded \<Rightarrow> 3 * (MaxRetryAttempts cfg - Suc (i w)) + 4
      | AfterLoop \<Rightarrow> 2
      | Exiting \<Rightarrow> 1
      | Finished \<Rightarrow> 0)"

definition main_pot :: "config \<Rightarrow> jobstate \<Rightarrow> nat" where
  "main_pot cfg b =
     (case mpc b of
        Spawning \<Rightarrow> (length (links b) - spawned b) * (3 * MaxRetryAttempts cfg + 4) + 2
      | Waiting \<Rightarrow> 1
      | Returned r \<Rightarrow> 0)"

definition potential :: "config \<Rightarrow> state \<Rightarrow> nat" where
  "potential cfg s =
     sum_list (map (main_pot cfg) (jobs s)) + sum_list (map (worker_pot cfg) (workers s))"

text \<open>
  The calls that have returned; the goroutine of link \<open>k\<close> of job \<open>j\<close> has finished; the
  links of job \<open>j\<close>, among the first \<open>n\<close>, that exhaust their retry budget.
\<close>

definition returned :: "jobstate \<Rightarrow> bool" where
  "returned b = (case mpc b of Returned r \<Rightarrow> True | _ \<Rightarrow> False)"

definition all_returned :: "state \<Rightarrow> bool" where
  "all_returned s = list_all returned (jobs s)"

definition uri_finished :: "state \<Rightarrow> nat \<Rightarrow> nat \<Rightarrow> string \<Rightarrow> bool" where
  "uri_finished s j k l =
     list_ex (\<lambda>w. job w = j \<and> idx w = k \<and> link w = l \<and> wpc w = Finished) (workers s)"

definition failures :: "config \<Rightarrow> network \<Rightarrow> nat \<Rightarrow> nat \<Rightarrow> nat list" where
  "failures cfg net j n = filter (exhausted cfg net j) [0..<n]"

text \<open>
  A file name that \<open>filepath.Clean\<close> keeps as it is.
\<close>

definition plain_name :: "string \<Rightarrow> bool" where
  "plain_name n = (n \<noteq> [] \<and> n \<noteq> ''.'' \<and> n \<noteq> ''..'')"

text \<open>
  A concrete process: one slot, two attempts per link, one call with two links; every
  attempt on the first link of a call times out, every other link downloads at once.
  The schedule starts both goroutines, lets them take turns and ends with the caller.
  \<open>demo_two_calls\<close> are two calls of one link each, for the same process.
\<close>

definition demo_cfg :: config where
  "demo_cfg = \<lparr>MaxConcurrency = 1, MaxRetryAttempts = 2\<rparr>"

definition demo_net :: network where
  "demo_net j k a =
     (if k = 0
      then \<lparr>get_err = Some ''timeout'', create_err = None, copy_err = None, close_err = None\<rparr>
      else \<lparr>get_err = None, create_err = None, copy_err = None, close_err = None\<rparr>)"

definition demo_calls :: "(string list \<times> string) list" where
  "demo_calls = [([''http://h/a/s0.aac'', ''http://h/a/s1.aac''], ''/tmp/aac'')]"

definition demo_two_calls :: "(string list \<times> string) list" where
  "demo_two_calls = [([''http://h/a/s0.aac''], ''/tmp/aac0''), ([''http://h/b/s0.aac''], ''/tmp/aac1'')]"

definition demo_sched :: "action list" where
  "demo_sched =
     [RunMain 0, RunMain 0, RunMain 0] @
     concat (replicate 12 [RunWorker 0, RunWorker 1]) @
     [RunMain 0]"

text \<open>
  A concrete run of \<open>Download\<close>: a playlist with one segment and a nil entry, and a
  world in which every call succeeds, but for the way \<open>id3v2.Open\<close> answers.
\<close>

definition demo_caller :: caller_world where
  "demo_caller =
     \<lparr>later_fields = (\<lambda>year rest. if rest = ''01010500'' then Some 1704052800 else None),
      CurrentTime = 1800000000,
      Format = (\<lambda>t. ''20240101-0500''),
      NewOutputConfig = (\<lambda>name. Inr \<lparr>FileBaseName = name, AbsPath = ''/out/'' @ name @ ''.aac'',
                                         AudioFormat = ''aac''\<rparr>),
      SetupDir = None,
      IsExist = False\<rparr>"

definition demo_playlist :: decoded where
  "demo_playlist =
     (Media (Some \<lparr>Segments = [Some \<lparr>segment_URI = ''http://h/a/s0.aac''\<rparr>, None]\<rparr>), MEDIA, None)"

definition demo_detached :: "opened \<Rightarrow> detached_world" where
  "demo_detached opn =
     \<lparr>limits = \<lparr>MaxConcurrency = 1, MaxRetryAttempts = 2\<rparr>,
      getArea = (\<lambda>station. ''JP13''),
      GetToken = (\<lambda>area. ''token''),
      client_Do = (\<lambda>n. Inr (''200 OK'',
                     (Master (Some \<lparr>Variants = [Some \<lparr>variant_URI = ''http://h/chunklist.m3u8''\<rparr>]\<rparr>),
                      MASTER, None))),
      http_Get = (\<lambda>uri. Inr demo_playlist),
      TempAACDir = Inr ''/out/aac1'',
      segments = (\<lambda>j k a. \<lparr>get_err = None, create_err = None, copy_err = None, close_err = None\<rparr>),
      scheduler = [RunMain 0, RunMain 0, RunWorker 0, RunWorker 0, RunWorker 0, RunWorker 0,
                   RunWorker 0, RunMain 0],
      disk = {},
      ConcatAACFilesFromList = Inr ''/out/aac1/concat.aac'',
      os_Rename = None,
      ConvertAACtoMP3_err = None,
      id3v2_Open = opn,
      tag_Save = None\<rparr>"

definition demo_prog :: "string \<Rightarrow> Prog" where
  "demo_prog start = \<lparr>Title = ''News'', Pfm = ''Anchor'', Ft = start, To = ''202401010600'', Info = ''info''\<rparr>"

section \<open>Properties of the playlist functions\<close>

lemma chunklist_loop_eq:
  "chunklist_loop vs acc = acc @ map segment_URI (List.map_filter id vs)"
  by (induction vs arbitrary: acc) (auto simp: List.map_filter_simps split: option.splits)

lemma length_map_filter_id:
  "length (List.map_filter id vs) = length (filter (\<lambda>v. v \<noteq> None) vs)"
  by (induction vs) (auto simp: List.map_filter_simps split: option.splits)

text \<open>
  Claim C2. On a decoded master playlist, \<open>getURI\<close> returns the URI of the entry and no
  error when the playlist has exactly one (non-nil) variant entry; with no entry, with
  two or more entries, or with a nil entry, it returns the empty URI and the error
  "invalid m3u8 format".
\<close>

theorem getURI_master:
  "(Variants p = [Some v] \<longrightarrow>
      getURI (Master (Some p), MASTER, None) = Return (variant_URI v, None)) \<and>
   (length (Variants p) \<noteq> 1 \<or> Variants p = [None] \<longrightarrow>
      getURI (Master (Some p), MASTER, None) = Return ('''', Some ''invalid m3u8 format''))"
  by (auto simp: getURI_def)

theorem getURI_master_witness:
  "getURI (Master (Some \<lparr>Variants = [Some \<lparr>variant_URI = ''http://h/chunklist.m3u8''\<rparr>]\<rparr>), MASTER, None)
     = Return (''http://h/chunklist.m3u8'', None) \<and>
   getURI (Master (Some \<lparr>Variants = []\<rparr>), MASTER, None)
     = Return ('''', Some ''invalid m3u8 format'')"
  using getURI_master [of "\<lparr>Variants = [Some \<lparr>variant_URI = ''http://h/chunklist.m3u8''\<rparr>]\<rparr>"
                          "\<lparr>variant_URI = ''http://h/chunklist.m3u8''\<rparr>"]
        getURI_master [of "\<lparr>Variants = []\<rparr>" "\<lparr>variant_URI = ''''\<rparr>"]
  by simp

text \<open>
  Claim C3. On a decoded media playlist, \<open>getChunklist\<close> returns, with no error, the URIs
  of exactly the non-nil segment entries in playlist order: nil entries are skipped, the
  result is as long as the number of non-nil entries, and a playlist without a non-nil
  entry gives the empty list with no error.
\<close>

theorem getChunklist_media:
  "getChunklist (Media (Some p), MEDIA, None)
     = Return (map segment_URI (List.map_filter id (Segments p)), None) \<and>
   length (map segment_URI (List.map_filter id (Segments p)))
     = length (filter (\<lambda>v. v \<noteq> None) (Segments p)) \<and>
   getChunklist (Media (Some \<lparr>Segments = replicate n None\<rparr>), MEDIA, None) = Return ([], None)"
  by (simp add: getChunklist_def chunklist_loop_eq length_map_filter_id
        List.map_filter_def)

theorem getChunklist_media_witness:
  "getChunklist demo_playlist = Return ([''http://h/a/s0.aac''], None)"
  using getChunklist_media
    [of "\<lparr>Segments = [Some \<lparr>segment_URI = ''http://h/a/s0.aac''\<rparr>, None]\<rparr>" 0]
  by (simp add: demo_playlist_def List.map_filter_simps)

text \<open>
  Claim C6. A decoding failure is returned as the decoder's non-nil error. A playlist
  of the other kind, decoded without error, is not: both functions return the decoder's
  error, which is nil there, together with the empty result.
\<close>

theorem wrong_kind_nil_error:
  "getURI (Media (Some mp), MEDIA, None) = Return ('''', None) \<and>
   getChunklist (Master (Some p), MASTER, None) = Return ([], None) \<and>
   getURI (pl, ty, Some e) = Return ('''', Some e) \<and>
   getChunklist (pl, ty, Some e) = Return ([], Some e)"
  by (simp add: getURI_def getChunklist_def)

theorem wrong_kind_nil_error_witness:
  "getURI demo_playlist = Return ('''', None)"
  using wrong_kind_nil_error
    [of "\<lparr>Segments = [Some \<lparr>segment_URI = ''http://h/a/s0.aac''\<rparr>, None]\<rparr>"]
  by (simp add: demo_playlist_def)

section \<open>Properties of the destination path\<close>

lemma split_scan_le: "split_scan p n \<le> n"
  by (induction n) auto

lemma split_scan_no_sep:
  "split_scan p n \<le> k \<Longrightarrow> k < n \<Longrightarrow> p ! k \<noteq> CHR ''/''"
proof (induction n)
  case 0
  then show ?case by simp
next
  case (Suc n)
  show ?case
  proof (cases "p ! n = CHR ''/''")
    case True
    with Suc.prems show ?thesis by simp
  next
    case False
    show ?thesis
    proof (cases "k = n")
      case True
      with False show ?thesis by simp
    next
      case False
      with Suc.prems \<open>p ! n \<noteq> CHR ''/''\<close> have "split_scan p n \<le> k" "k < n" by simp_all
      then show ?thesis by (rule Suc.IH)
    qed
  qed
qed

lemma Split_name_no_sep: "CHR ''/'' \<notin> set (snd (filepath_Split p))"
proof
  assume "CHR ''/'' \<in> set (snd (filepath_Split p))"
  then obtain k where k: "k < length (drop (split_scan p (length p)) p)"
    "drop (split_scan p (length p)) p ! k = CHR ''/''"
    by (auto simp: filepath_Split_def Let_def in_set_conv_nth)
  then have "p ! (split_scan p (length p) + k) = CHR ''/''"
    using split_scan_le [of p "length p"] by simp
  moreover have "p ! (split_scan p (length p) + k) \<noteq> CHR ''/''"
    using k(1) by (intro split_scan_no_sep [of p "length p"]) auto
  ultimately show False by simp
qed

lemma Split_append: "fst (filepath_Split p) @ snd (filepath_Split p) = p"
  by (simp add: filepath_Split_def Let_def)

lemma split_sep_nonempty: "split_sep a \<noteq> []"
  by (induction a) (auto split: list.splits)

lemma split_sep_append: "split_sep (a @ CHR ''/'' # b) = split_sep a @ split_sep b"
proof (induction a)
  case Nil
  then show ?case by simp
next
  case (Cons c a)
  show ?case
  proof (cases "c = CHR ''/''")
    case True
    with Cons show ?thesis by simp
  next
    case False
    obtain e es where "split_sep a = e # es"
      using split_sep_nonempty [of a] by (cases "split_sep a") auto
    with Cons False show ?thesis by simp
  qed
qed

lemma split_sep_single: "CHR ''/'' \<notin> set n \<Longrightarrow> split_sep n = [n]"
  by (induction n) auto

lemma clean_step_plain:
  "plain_name n \<Longrightarrow>
   snd (clean_step rooted (dotdot, out) n)
     = (if rooted \<and> length out \<noteq> 1 \<or> \<not> rooted \<and> length out \<noteq> 0 then out @ ''/'' else out) @ n"
  by (simp add: clean_step_def plain_name_def)

lemma Join_plain:
  "\<exists>pre. \<forall>n. plain_name n \<and> CHR ''/'' \<notin> set n \<longrightarrow> filepath_Join [out, n] = pre @ n"
proof (cases "out = []")
  case True
  have "filepath_Join [out, n] = [] @ n" if n: "plain_name n" "CHR ''/'' \<notin> set n" for n
  proof -
    from n have "hd n \<noteq> CHR ''/''" "n \<noteq> []"
      by (cases n; auto simp: plain_name_def)+
    with n True show ?thesis
      by (simp add: filepath_Clean_def Let_def split_sep_single clean_step_def plain_name_def)
  qed
  then show ?thesis by blast
next
  case False
  define rooted where "rooted = (hd out = CHR ''/'')"
  define st where "st = foldl (clean_step rooted) (if rooted then (1, ''/'') else (0, [])) (split_sep out)"
  define pre where "pre = (if rooted \<and> length (snd st) \<noteq> 1 \<or> \<not> rooted \<and> length (snd st) \<noteq> 0
                           then snd st @ ''/'' else snd st)"
  have "filepath_Join [out, n] = pre @ n" if n: "plain_name n" "CHR ''/'' \<notin> set n" for n
  proof -
    have hd: "hd (out @ CHR ''/'' # n) = hd out" using False by simp
    have "snd (foldl (clean_step rooted) (if rooted then (1, ''/'') else (0, [])) (split_sep (out @ CHR ''/'' # n)))
        = snd (clean_step rooted (fst st, snd st) n)"
      using n by (simp add: split_sep_append split_sep_single st_def)
    also have "\<dots> = pre @ n"
      using n by (simp only: clean_step_plain pre_def)
    finally have s: "snd (foldl (clean_step rooted) (if rooted then (1, ''/'') else (0, [])) (split_sep (out @ CHR ''/'' # n)))
        = pre @ n" .
    from n have "n \<noteq> []" by (simp add: plain_name_def)
    with False s hd show ?thesis
      by (simp add: filepath_Clean_def Let_def rooted_def [symmetric])
  qed
  then show ?thesis by blast
qed

text \<open>
  Claim C9, as amended. Two URIs whose final path segments (the text after the last
  \<open>/\<close>) are neither empty nor \<open>.\<close> nor \<open>..\<close> are written to the same destination path
  exactly when their final path segments are equal: different final segments give
  different paths, whatever the destination directory, and equal ones collide.
\<close>

theorem destination_distinct:
  assumes "plain_name (snd (filepath_Split u))" and "plain_name (snd (filepath_Split v))"
  shows "destination out u = destination out v \<longleftrightarrow> snd (filepath_Split u) = snd (filepath_Split v)"
proof -
  from Join_plain [of out] obtain pre where
    pre: "\<And>n. plain_name n \<Longrightarrow> CHR ''/'' \<notin> set n \<Longrightarrow> filepath_Join [out, n] = pre @ n"
    by blast
  from pre [OF assms(1) Split_name_no_sep] pre [OF assms(2) Split_name_no_sep]
  show ?thesis by (auto simp: destination_def Let_def)
qed

theorem destination_distinct_witness:
  "destination ''/tmp/aac'' ''http://h/a/s0.aac'' \<noteq> destination ''/tmp/aac'' ''http://h/a/s1.aac''"
proof -
  have a: "snd (filepath_Split ''http://h/a/s0.aac'') = ''s0.aac''"
    and b: "snd (filepath_Split ''http://h/a/s1.aac'') = ''s1.aac''"
    by code_simp+
  have "plain_name (snd (filepath_Split ''http://h/a/s0.aac''))"
    "plain_name (snd (filepath_Split ''http://h/a/s1.aac''))"
    by (simp_all add: a b plain_name_def)
  from destination_distinct [OF this, of "''/tmp/aac''"] show ?thesis
    by (simp add: a b)
qed

text \<open>
  Claim C9 as stated fails: two different URIs of one job with the same final path
  segment are written to the same destination path.
\<close>

theorem destination_not_injective:
  "''http://h/a/seg.aac'' \<noteq> ''http://h/b/seg.aac'' \<and>
   destination ''/tmp/aac'' ''http://h/a/seg.aac'' = ''/tmp/aac/seg.aac'' \<and>
   destination ''/tmp/aac'' ''http://h/b/seg.aac'' = ''/tmp/aac/seg.aac''"
  by code_simp

section \<open>Properties of bulkDownload\<close>

lemma downloadLink_err: "fst (downloadLink a l out f) = None \<longleftrightarrow> attempt_ok a"
  by (auto simp: downloadLink_def attempt_ok_def Let_def split: option.splits)

lemma downloadLink_fs_mono: "f \<subseteq> snd (downloadLink a l out f)"
  by (auto simp: downloadLink_def Let_def split: option.splits)

lemma downloadLink_fs_ok:
  "attempt_ok a \<Longrightarrow> destination out l \<in> snd (downloadLink a l out f)"
  by (auto simp: downloadLink_def attempt_ok_def Let_def split: option.splits)

lemma count_update:
  "n < length ws \<Longrightarrow>
   length (filter P (ws[n := w'])) + (if P (ws ! n) then 1 else 0)
     = length (filter P ws) + (if P w' then 1 else 0)"
proof (induction ws arbitrary: n)
  case Nil
  then show ?case by simp
next
  case (Cons a ws)
  show ?case
  proof (cases n)
    case 0
    then show ?thesis by simp
  next
    case (Suc m)
    with Cons.prems have "m < length ws" by simp
    from Cons.IH [OF this] Suc show ?thesis by simp
  qed
qed

lemma worker_step_cases [case_names stutter acquire exhausted download release_ok release_retry flag noflag finish]:
  obtains
    "worker_step cfg net n s = s" "worker_blocked cfg s n"
  | w where "n < length (workers s)" "w = workers s ! n" "wpc w = AtLoop"
      "i w < MaxRetryAttempts cfg" "sem s < MaxConcurrency cfg"
      "worker_step cfg net n s =
         s\<lparr>sem := sem s + 1,
           workers := (workers s)[n := w\<lparr>wpc := Holding, acquires := acquires w + 1\<rparr>]\<rparr>"
  | w where "n < length (workers s)" "w = workers s ! n" "wpc w = AtLoop"
      "\<not> i w < MaxRetryAttempts cfg"
      "worker_step cfg net n s = s\<lparr>workers := (workers s)[n := w\<lparr>wpc := AfterLoop\<rparr>]\<rparr>"
  | w e fs' where "n < length (workers s)" "w = workers s ! n" "wpc w = Holding"
      "downloadLink (net (job w) (idx w) (i w)) (link w) (out_dir w) (fs s) = (e, fs')"
      "worker_step cfg net n s =
         s\<lparr>fs := fs',
           workers := (workers s)[n := w\<lparr>err := e, tries := tries w + 1, wpc := Downloaded\<rparr>]\<rparr>"
  | w where "n < length (workers s)" "w = workers s ! n" "wpc w = Downloaded" "err w = None"
      "worker_step cfg net n s =
         s\<lparr>sem := sem s - 1, workers := (workers s)[n := w\<lparr>wpc := AfterLoop\<rparr>]\<rparr>"
  | w where "n < length (workers s)" "w = workers s ! n" "wpc w = Downloaded" "err w \<noteq> None"
      "worker_step cfg net n s =
         s\<lparr>sem := sem s - 1, workers := (workers s)[n := w\<lparr>i := i w + 1, wpc := AtLoop\<rparr>]\<rparr>"
  | w where "n < length (workers s)" "w = workers s ! n" "wpc w = AfterLoop" "err w \<noteq> None"
      "worker_step cfg net n s =
         s\<lparr>jobs := (jobs s)[job w := (jobs s ! job w)\<lparr>errFlag := True\<rparr>],
           workers := (workers s)[n := w\<lparr>wpc := Exiting\<rparr>]\<rparr>"
  | w where "n < length (workers s)" "w = workers s ! n" "wpc w = AfterLoop" "err w = None"
      "worker_step cfg net n s = s\<lparr>workers := (workers s)[n := w\<lparr>wpc := Exiting\<rparr>]\<rparr>"
  | w where "n < length (workers s)" "w = workers s ! n" "wpc w = Exiting"
      "worker_step cfg net n s =
         s\<lparr>jobs := (jobs s)[job w := (jobs s ! job w)\<lparr>wg := wg (jobs s ! job w) - 1\<rparr>],
           workers := (workers s)[n := w\<lparr>wpc := Finished\<rparr>]\<rparr>"
proof (cases "n < length (workers s)")
  case False
  then have "worker_step cfg net n s = s" "worker_blocked cfg s n"
    by (simp_all add: worker_step_def worker_blocked_def)
  then show ?thesis by (rule that(1))
next
  case lt: True
  define w where "w = workers s ! n"
  show ?thesis
  proof (cases "wpc w")
    case AtLoop
    then show ?thesis
      using lt w_def that(1) that(2)[of w] that(3)[of w]
      by (cases "i w < MaxRetryAttempts cfg"; cases "sem s < MaxConcurrency cfg")
         (simp_all add: worker_step_def worker_blocked_def Let_def)
  next
    case Holding
    obtain e fs' where d: "downloadLink (net (job w) (idx w) (i w)) (link w) (out_dir w) (fs s) = (e, fs')"
      by (cases "downloadLink (net (job w) (idx w) (i w)) (link w) (out_dir w) (fs s)")
    show ?thesis
      using lt w_def Holding d that(4)[of w e fs']
      by (simp add: worker_step_def Let_def)
  next
    case Downloaded
    then show ?thesis
      using lt w_def that(5)[of w] that(6)[of w]
      by (cases "err w") (simp_all add: worker_step_def Let_def)
  next
    case AfterLoop
    then show ?thesis
      using lt w_def that(7)[of w] that(8)[of w]
      by (cases "err w") (simp_all add: worker_step_def Let_def)
  next
    case Exiting
    then show ?thesis
      using lt w_def that(9)[of w]
      by (simp add: worker_step_def Let_def)
  next
    case Finished
    then have "worker_step cfg net n s = s" "worker_blocked cfg s n"
      using lt w_def by (simp_all add: worker_step_def worker_blocked_def Let_def)
    then show ?thesis by (rule that(1))
  qed
qed

lemma main_step_cases [case_names stutter spawn towait return]:
  obtains
    "main_step j s = s" "main_blocked s j"
  | b where "j < length (jobs s)" "b = jobs s ! j" "mpc b = Spawning" "spawned b < length (links b)"
      "main_step j s =
         s\<lparr>jobs := (jobs s)[j := b\<lparr>wg := wg b + 1, spawned := spawned b + 1\<rparr>],
           workers := workers s @
             [\<lparr>job = j, idx = spawned b, link = links b ! spawned b, out_dir = output_dir b,
               wpc = AtLoop, i = 0, err = None, tries = 0, acquires = 0\<rparr>]\<rparr>"
  | b where "j < length (jobs s)" "b = jobs s ! j" "mpc b = Spawning" "\<not> spawned b < length (links b)"
      "main_step j s = s\<lparr>jobs := (jobs s)[j := b\<lparr>mpc := Waiting\<rparr>]\<rparr>"
  | b where "j < length (jobs s)" "b = jobs s ! j" "mpc b = Waiting" "wg b = 0"
      "main_step j s =
         s\<lparr>jobs := (jobs s)[j := b\<lparr>mpc := Returned (if errFlag b then Some ''lack of aac files'' else None)\<rparr>]\<rparr>"
proof (cases "j < length (jobs s)")
  case False
  then have "main_step j s = s" "main_blocked s j"
    by (simp_all add: main_step_def main_blocked_def)
  then show ?thesis by (rule that(1))
next
  case lt: True
  define b where "b = jobs s ! j"
  show ?thesis
  proof (cases "mpc b")
    case Spawning
    then show ?thesis
      using lt b_def that(2)[of b] that(3)[of b]
      by (cases "spawned b < length (links b)") (simp_all add: main_step_def Let_def)
  next
    case Waiting
    then show ?thesis
      using lt b_def that(1) that(4)[of b]
      by (cases "wg b = 0") (simp_all add: main_step_def main_blocked_def Let_def)
  next
    case (Returned r)
    then have "main_step j s = s" "main_blocked s j"
      using lt b_def by (simp_all add: main_step_def main_blocked_def Let_def)
    then show ?thesis by (rule that(1))
  qed
qed

lemma sem_inv_worker_step:
  assumes "sem_inv cfg s"
  shows "sem_inv cfg (worker_step cfg net n s)"
proof (cases rule: worker_step_cases [of cfg net n s])
  case stutter
  with assms show ?thesis by simp
next
  case (acquire w)
  with assms count_update [of n "workers s" holding "w\<lparr>wpc := Holding, acquires := acquires w + 1\<rparr>"]
  show ?thesis by (simp add: sem_inv_def holders_def holding_def)
next
  case (exhausted w)
  with assms count_update [of n "workers s" holding "w\<lparr>wpc := AfterLoop\<rparr>"]
  show ?thesis by (simp add: sem_inv_def holders_def holding_def)
next
  case (download w e fs')
  with assms count_update [of n "workers s" holding "w\<lparr>err := e, tries := tries w + 1, wpc := Downloaded\<rparr>"]
  show ?thesis by (simp add: sem_inv_def holders_def holding_def)
next
  case (release_ok w)
  with assms count_update [of n "workers s" holding "w\<lparr>wpc := AfterLoop\<rparr>"]
  show ?thesis by (auto simp: sem_inv_def holders_def holding_def)
next
  case (release_retry w)
  with assms count_update [of n "workers s" holding "w\<lparr>i := i w + 1, wpc := AtLoop\<rparr>"]
  show ?thesis by (auto simp: sem_inv_def holders_def holding_def)
next
  case (flag w)
  with assms count_update [of n "workers s" holding "w\<lparr>wpc := Exiting\<rparr>"]
  show ?thesis by (simp add: sem_inv_def holders_def holding_def)
next
  case (noflag w)
  with assms count_update [of n "workers s" holding "w\<lparr>wpc := Exiting\<rparr>"]
  show ?thesis by (simp add: sem_inv_def holders_def holding_def)
next
  case (finish w)
  with assms count_update [of n "workers s" holding "w\<lparr>wpc := Finished\<rparr>"]
  show ?thesis by (simp add: sem_inv_def holders_def holding_def)
qed

lemma sem_inv_main_step:
  assumes "sem_inv cfg s"
  shows "sem_inv cfg (main_step j s)"
proof (cases rule: main_step_cases [of j s])
  case stutter
  with assms show ?thesis by simp
next
  case (spawn b)
  with assms show ?thesis by (simp add: sem_inv_def holders_def holding_def)
next
  case (towait b)
  with assms show ?thesis by (simp add: sem_inv_def holders_def)
next
  case (return b)
  with assms show ?thesis by (simp add: sem_inv_def holders_def)
qed

lemma sem_inv_step: "sem_inv cfg s \<Longrightarrow> sem_inv cfg (step cfg net s a)"
  by (cases a) (simp_all add: sem_inv_main_step sem_inv_worker_step)

lemma sem_inv_run: "sem_inv cfg s \<Longrightarrow> sem_inv cfg (run cfg net sched s)"
  unfolding run_def by (induction sched arbitrary: s) (simp_all add: sem_inv_step)

lemma sem_inv_init: "sem_inv cfg (init calls fs0)"
  by (simp add: sem_inv_def init_def holders_def)

lemma exhausted_iff:
  "exhausted cfg net j k \<longleftrightarrow> (\<forall>a<MaxRetryAttempts cfg. \<not> attempt_ok (net j k a))"
  by (auto simp: exhausted_def list_all_iff)

lemma workers_inv_update:
  assumes "workers_inv cfg net s" "winv cfg net w'" "workers s' = (workers s)[n := w']"
  shows "workers_inv cfg net s'"
  unfolding workers_inv_def
proof (intro allI impI)
  fix m
  assume m: "m < length (workers s')"
  show "winv cfg net (workers s' ! m)"
  proof (cases "m = n")
    case True
    with m assms show ?thesis by simp
  next
    case False
    with m assms show ?thesis by (simp add: workers_inv_def)
  qed
qed

lemma workers_inv_worker_step:
  assumes "workers_inv cfg net s"
  shows "workers_inv cfg net (worker_step cfg net n s)"
proof (cases rule: worker_step_cases [of cfg net n s])
  case stutter
  with assms show ?thesis by simp
next
  case (acquire w)
  with assms have "winv cfg net w" by (simp add: workers_inv_def)
  with acquire have "winv cfg net (w\<lparr>wpc := Holding, acquires := acquires w + 1\<rparr>)"
    by (auto simp: winv_def exited_def)
  with assms acquire show ?thesis by (auto intro: workers_inv_update)
next
  case (exhausted w)
  with assms have "winv cfg net w" by (simp add: workers_inv_def)
  with exhausted have "winv cfg net (w\<lparr>wpc := AfterLoop\<rparr>)"
    by (auto simp: winv_def exited_def)
  with assms exhausted show ?thesis by (auto intro: workers_inv_update)
next
  case (download w e fs')
  with assms have "winv cfg net w" by (simp add: workers_inv_def)
  moreover from download(4) have "e = None \<longleftrightarrow> attempt_ok (net (job w) (idx w) (i w))"
    using downloadLink_err [of "net (job w) (idx w) (i w)" "link w" "out_dir w" "fs s"] by simp
  ultimately have "winv cfg net (w\<lparr>err := e, tries := tries w + 1, wpc := Downloaded\<rparr>)"
    using download by (simp add: winv_def exited_def)
  with assms download show ?thesis by (auto intro: workers_inv_update)
next
  case (release_ok w)
  with assms have "winv cfg net w" by (simp add: workers_inv_def)
  with release_ok have "winv cfg net (w\<lparr>wpc := AfterLoop\<rparr>)"
    by (auto simp: winv_def exited_def)
  with assms release_ok show ?thesis by (auto intro: workers_inv_update)
next
  case (release_retry w)
  with assms have "winv cfg net w" by (simp add: workers_inv_def)
  with release_retry have "winv cfg net (w\<lparr>i := i w + 1, wpc := AtLoop\<rparr>)"
    by (auto simp: winv_def exited_def less_Suc_eq)
  with assms release_retry show ?thesis by (auto intro: workers_inv_update)
next
  case (flag w)
  with assms have "winv cfg net w" by (simp add: workers_inv_def)
  with flag have "winv cfg net (w\<lparr>wpc := Exiting\<rparr>)"
    by (auto simp: winv_def exited_def)
  with assms flag show ?thesis by (auto intro: workers_inv_update)
next
  case (noflag w)
  with assms have "winv cfg net w" by (simp add: workers_inv_def)
  with noflag have "winv cfg net (w\<lparr>wpc := Exiting\<rparr>)"
    by (auto simp: winv_def exited_def)
  with assms noflag show ?thesis by (auto intro: workers_inv_update)
next
  case (finish w)
  with assms have "winv cfg net w" by (simp add: workers_inv_def)
  with finish have "winv cfg net (w\<lparr>wpc := Finished\<rparr>)"
    by (auto simp: winv_def exited_def)
  with assms finish show ?thesis by (auto intro: workers_inv_update)
qed

lemma workers_inv_main_step:
  assumes "workers_inv cfg net s"
  shows "workers_inv cfg net (main_step j s)"
proof (cases rule: main_step_cases [of j s])
  case stutter
  with assms show ?thesis by simp
next
  case (spawn b)
  with assms show ?thesis
    by (auto simp: workers_inv_def nth_append winv_def exited_def)
next
  case (towait b)
  with assms show ?thesis by (simp add: workers_inv_def)
next
  case (return b)
  with assms show ?thesis by (simp add: workers_inv_def)
qed

lemma workers_inv_run:
  "workers_inv cfg net s \<Longrightarrow> workers_inv cfg net (run cfg net sched s)"
  unfolding run_def
proof (induction sched arbitrary: s)
  case Nil
  then show ?case by simp
next
  case (Cons a sched)
  have "workers_inv cfg net (step cfg net s a)"
    using Cons.prems by (cases a) (simp_all add: workers_inv_main_step workers_inv_worker_step)
  then show ?case using Cons.IH by simp
qed

lemma workers_inv_init: "workers_inv cfg net (init calls fs0)"
  by (simp add: workers_inv_def init_def)

lemma count_pos: "n < length ws \<Longrightarrow> P (ws ! n) \<Longrightarrow> 0 < length (filter P ws)"
  by (metis filter_empty_conv length_greater_0_conv nth_mem)

lemma count_same:
  assumes "n < length ws" "P w' = P (ws ! n)"
  shows "length (filter P (ws[n := w'])) = length (filter P ws)"
  using count_update [OF assms(1), of P w'] assms(2) by simp

lemma worker_step_frame [case_names stutter local flag finish]:
  obtains
    "worker_step cfg net n s = s" "worker_blocked cfg s n"
  | w w' where "n < length (workers s)" "w = workers s ! n"
      "job w' = job w" "idx w' = idx w" "link w' = link w" "out_dir w' = out_dir w"
      "wpc w \<noteq> Finished" "wpc w' \<noteq> Finished" "\<not> declared_failed w" "\<not> declared_failed w'"
      "jobs (worker_step cfg net n s) = jobs s"
      "workers (worker_step cfg net n s) = (workers s)[n := w']"
  | w where "n < length (workers s)" "w = workers s ! n" "wpc w = AfterLoop" "err w \<noteq> None"
      "jobs (worker_step cfg net n s) = (jobs s)[job w := (jobs s ! job w)\<lparr>errFlag := True\<rparr>]"
      "workers (worker_step cfg net n s) = (workers s)[n := w\<lparr>wpc := Exiting\<rparr>]"
  | w where "n < length (workers s)" "w = workers s ! n" "wpc w = Exiting"
      "jobs (worker_step cfg net n s) =
         (jobs s)[job w := (jobs s ! job w)\<lparr>wg := wg (jobs s ! job w) - 1\<rparr>]"
      "workers (worker_step cfg net n s) = (workers s)[n := w\<lparr>wpc := Finished\<rparr>]"
proof (cases rule: worker_step_cases [of cfg net n s])
  case stutter
  then show ?thesis by (rule that(1))
next
  case (acquire w)
  then show ?thesis
    by (intro that(2) [of w "w\<lparr>wpc := Holding, acquires := acquires w + 1\<rparr>"])
       (simp_all add: declared_failed_def)
next
  case (exhausted w)
  then show ?thesis
    by (intro that(2) [of w "w\<lparr>wpc := AfterLoop\<rparr>"]) (simp_all add: declared_failed_def)
next
  case (download w e fs')
  then show ?thesis
    by (intro that(2) [of w "w\<lparr>err := e, tries := tries w + 1, wpc := Downloaded\<rparr>"])
       (simp_all add: declared_failed_def)
next
  case (release_ok w)
  then show ?thesis
    by (intro that(2) [of w "w\<lparr>wpc := AfterLoop\<rparr>"]) (simp_all add: declared_failed_def)
next
  case (release_retry w)
  then show ?thesis
    by (intro that(2) [of w "w\<lparr>i := i w + 1, wpc := AtLoop\<rparr>"])
       (simp_all add: declared_failed_def)
next
  case (flag w)
  then show ?thesis by (intro that(3) [of w]) simp_all
next
  case (noflag w)
  then show ?thesis
    by (intro that(2) [of w "w\<lparr>wpc := Exiting\<rparr>"]) (simp_all add: declared_failed_def)
next
  case (finish w)
  then show ?thesis by (intro that(4) [of w]) simp_all
qed

lemma nth_upd: "m < length xs \<Longrightarrow> (xs[n := x]) ! m = (if n = m then x else xs ! m)"
  by (cases "n = m") simp_all

lemma static_inv_main_step:
  assumes "static_inv calls s"
  shows "static_inv calls (main_step j s)"
proof (cases rule: main_step_cases [of j s])
  case stutter
  with assms show ?thesis by simp
next
  case (spawn b)
  with assms show ?thesis by (simp add: static_inv_def nth_upd)
next
  case (towait b)
  with assms show ?thesis by (simp add: static_inv_def nth_upd)
next
  case (return b)
  with assms show ?thesis by (simp add: static_inv_def nth_upd)
qed

lemma static_inv_worker_step:
  assumes "static_inv calls s"
  shows "static_inv calls (worker_step cfg net n s)"
proof (cases rule: worker_step_frame [of cfg net n s])
  case stutter
  with assms show ?thesis by simp
next
  case (local w w')
  with assms show ?thesis by (simp add: static_inv_def)
next
  case (flag w)
  with assms show ?thesis by (simp add: static_inv_def nth_upd)
next
  case (finish w)
  with assms show ?thesis by (simp add: static_inv_def nth_upd)
qed

lemma ids_inv_main_step:
  assumes "ids_inv s"
  shows "ids_inv (main_step j s)"
proof (cases rule: main_step_cases [of j s])
  case stutter
  with assms show ?thesis by simp
next
  case (spawn b)
  with assms show ?thesis
    by (auto simp: ids_inv_def nth_upd nth_append less_Suc_eq)
next
  case (towait b)
  with assms show ?thesis by (auto simp: ids_inv_def nth_upd)
next
  case (return b)
  with assms show ?thesis by (auto simp: ids_inv_def nth_upd)
qed

lemma ids_inv_worker_step:
  assumes "ids_inv s"
  shows "ids_inv (worker_step cfg net n s)"
proof (cases rule: worker_step_frame [of cfg net n s])
  case stutter
  with assms show ?thesis by simp
next
  case (local w w')
  with assms show ?thesis by (auto simp: ids_inv_def nth_upd)
next
  case (flag w)
  with assms show ?thesis by (auto simp: ids_inv_def nth_upd)
next
  case (finish w)
  with assms show ?thesis by (auto simp: ids_inv_def nth_upd)
qed

lemma spawn_inv_main_step:
  assumes "spawn_inv s"
  shows "spawn_inv (main_step j s)"
proof (cases rule: main_step_cases [of j s])
  case stutter
  with assms show ?thesis by simp
next
  case (spawn b)
  show ?thesis
    unfolding spawn_inv_def
  proof (intro allI impI conjI)
    fix j' assume "j' < length (jobs (main_step j s))"
    with spawn assms
    show "spawned (jobs (main_step j s) ! j') \<le> length (links (jobs (main_step j s) ! j'))"
      by (auto simp: spawn_inv_def nth_upd)
  next
    fix j' assume "j' < length (jobs (main_step j s))" "mpc (jobs (main_step j s) ! j') \<noteq> Spawning"
    with spawn assms
    show "spawned (jobs (main_step j s) ! j') = length (links (jobs (main_step j s) ! j'))"
      by (auto simp: spawn_inv_def nth_upd split: if_splits)
  next
    fix j' k
    assume j': "j' < length (jobs (main_step j s))" and k: "k < spawned (jobs (main_step j s) ! j')"
    show "\<exists>m<length (workers (main_step j s)).
            job (workers (main_step j s) ! m) = j' \<and> idx (workers (main_step j s) ! m) = k"
    proof (cases "j' = j \<and> k = spawned b")
      case True
      with spawn show ?thesis
        by (intro exI [of _ "length (workers s)"]) simp
    next
      case False
      with spawn j' k assms have "j' < length (jobs s)" "k < spawned (jobs s ! j')"
        by (auto simp: nth_upd split: if_splits)
      with assms obtain m where "m < length (workers s)" "job (workers s ! m) = j'" "idx (workers s ! m) = k"
        by (auto simp: spawn_inv_def)
      with spawn show ?thesis
        by (intro exI [of _ m]) (simp add: nth_append)
    qed
  qed
next
  case (towait b)
  with assms show ?thesis by (auto simp: spawn_inv_def nth_upd)
next
  case (return b)
  with assms show ?thesis by (auto simp: spawn_inv_def nth_upd)
qed

lemma exists_worker_update:
  assumes "m < length ws" "f (ws ! m) = a" "g (ws ! m) = b"
    and "n < length ws \<Longrightarrow> f w' = f (ws ! n) \<and> g w' = g (ws ! n)"
  shows "\<exists>m<length (ws[n := w']). f (ws[n := w'] ! m) = a \<and> g (ws[n := w'] ! m) = b"
  using assms by (intro exI [of _ m]) (auto simp: nth_upd)

lemma spawn_inv_worker_step:
  assumes "spawn_inv s"
  shows "spawn_inv (worker_step cfg net n s)"
proof (cases rule: worker_step_frame [of cfg net n s])
  case stutter
  with assms show ?thesis by simp
next
  case (local w w')
  have "\<exists>m<length ((workers s)[n := w']). job ((workers s)[n := w'] ! m) = j \<and> idx ((workers s)[n := w'] ! m) = k"
    if "j < length (jobs s)" "k < spawned (jobs s ! j)" for j k
  proof -
    from that assms obtain m where "m < length (workers s)" "job (workers s ! m) = j" "idx (workers s ! m) = k"
      by (auto simp: spawn_inv_def)
    then show ?thesis using local by (intro exists_worker_update) auto
  qed
  with assms local show ?thesis by (simp add: spawn_inv_def)
next
  case (flag w)
  have "\<exists>m<length ((workers s)[n := w\<lparr>wpc := Exiting\<rparr>]).
          job ((workers s)[n := w\<lparr>wpc := Exiting\<rparr>] ! m) = j \<and> idx ((workers s)[n := w\<lparr>wpc := Exiting\<rparr>] ! m) = k"
    if "j < length (jobs s)" "k < spawned (jobs s ! j)" for j k
  proof -
    from that assms obtain m where "m < length (workers s)" "job (workers s ! m) = j" "idx (workers s ! m) = k"
      by (auto simp: spawn_inv_def)
    then show ?thesis using flag by (intro exists_worker_update) auto
  qed
  with assms flag show ?thesis by (simp add: spawn_inv_def nth_upd)
next
  case (finish w)
  have "\<exists>m<length ((workers s)[n := w\<lparr>wpc := Finished\<rparr>]).
          job ((workers s)[n := w\<lparr>wpc := Finished\<rparr>] ! m) = j \<and> idx ((workers s)[n := w\<lparr>wpc := Finished\<rparr>] ! m) = k"
    if "j < length (jobs s)" "k < spawned (jobs s ! j)" for j k
  proof -
    from that assms obtain m where "m < length (workers s)" "job (workers s ! m) = j" "idx (workers s ! m) = k"
      by (auto simp: spawn_inv_def)
    then show ?thesis using finish by (intro exists_worker_update) auto
  qed
  with assms finish show ?thesis by (simp add: spawn_inv_def nth_upd)
qed

lemma wg_inv_main_step:
  assumes "wg_inv s"
  shows "wg_inv (main_step j s)"
proof (cases rule: main_step_cases [of j s])
  case stutter
  with assms show ?thesis by simp
next
  case (spawn b)
  with assms show ?thesis by (auto simp: wg_inv_def nth_upd)
next
  case (towait b)
  with assms show ?thesis by (auto simp: wg_inv_def nth_upd)
next
  case (return b)
  with assms show ?thesis by (auto simp: wg_inv_def nth_upd)
qed

lemma wg_inv_worker_step:
  assumes "wg_inv s" "ids_inv s"
  shows "wg_inv (worker_step cfg net n s)"
proof (cases rule: worker_step_frame [of cfg net n s])
  case stutter
  with assms show ?thesis by simp
next
  case (local w w')
  then have "length (filter (\<lambda>w. job w = j \<and> wpc w \<noteq> Finished) ((workers s)[n := w']))
      = length (filter (\<lambda>w. job w = j \<and> wpc w \<noteq> Finished) (workers s))" for j
    by (intro count_same) auto
  with assms local show ?thesis by (simp add: wg_inv_def)
next
  case (flag w)
  then have "length (filter (\<lambda>w. job w = j \<and> wpc w \<noteq> Finished) ((workers s)[n := w\<lparr>wpc := Exiting\<rparr>]))
      = length (filter (\<lambda>w. job w = j \<and> wpc w \<noteq> Finished) (workers s))" for j
    by (intro count_same) auto
  with assms flag show ?thesis by (simp add: wg_inv_def nth_upd)
next
  case (finish w)
  have other: "length (filter (\<lambda>w. job w = j \<and> wpc w \<noteq> Finished) ((workers s)[n := w\<lparr>wpc := Finished\<rparr>]))
      = length (filter (\<lambda>w. job w = j \<and> wpc w \<noteq> Finished) (workers s))" if "j \<noteq> job w" for j
    using finish that by (intro count_same) auto
  have own: "Suc (length (filter (\<lambda>x. job x = job w \<and> wpc x \<noteq> Finished) ((workers s)[n := w\<lparr>wpc := Finished\<rparr>])))
      = length (filter (\<lambda>x. job x = job w \<and> wpc x \<noteq> Finished) (workers s))"
    using count_update [of n "workers s" "\<lambda>x. job x = job w \<and> wpc x \<noteq> Finished" "w\<lparr>wpc := Finished\<rparr>"] finish
    by simp
  show ?thesis
    unfolding wg_inv_def
  proof (intro allI impI)
    fix j assume "j < length (jobs (worker_step cfg net n s))"
    then have j: "j < length (jobs s)" using finish by simp
    show "wg (jobs (worker_step cfg net n s) ! j)
        = length (filter (\<lambda>w. job w = j \<and> wpc w \<noteq> Finished) (workers (worker_step cfg net n s)))"
    proof (cases "j = job w")
      case True
      with j assms(1) have "wg (jobs s ! job w) = length (filter (\<lambda>x. job x = job w \<and> wpc x \<noteq> Finished) (workers s))"
        by (simp add: wg_inv_def)
      with own True j finish show ?thesis by (simp add: nth_upd)
    next
      case False
      with j assms(1) other [of j] finish show ?thesis by (simp add: wg_inv_def nth_upd)
    qed
  qed
qed

lemma flag_inv_main_step:
  assumes "flag_inv s"
  shows "flag_inv (main_step j s)"
proof (cases rule: main_step_cases [of j s])
  case stutter
  with assms show ?thesis by simp
next
  case (spawn b)
  have "(\<exists>m<Suc (length (workers s)). job ((workers s @ [x]) ! m) = j' \<and> declared_failed ((workers s @ [x]) ! m))
      \<longleftrightarrow> (\<exists>m<length (workers s). job (workers s ! m) = j' \<and> declared_failed (workers s ! m))"
    if "\<not> declared_failed x" for x j'
    using that by (auto simp: nth_append less_Suc_eq)
  from this [of "\<lparr>job = j, idx = spawned b, link = links b ! spawned b, out_dir = output_dir b,
               wpc = AtLoop, i = 0, err = None, tries = 0, acquires = 0\<rparr>"]
  show ?thesis using assms spawn by (simp add: flag_inv_def nth_upd declared_failed_def)
next
  case (towait b)
  with assms show ?thesis by (simp add: flag_inv_def nth_upd)
next
  case (return b)
  with assms show ?thesis by (simp add: flag_inv_def nth_upd)
qed

lemma exists_declared_update:
  assumes "n < length ws" "job w' = job (ws ! n)"
  shows "(\<exists>m<length (ws[n := w']). job (ws[n := w'] ! m) = j \<and> declared_failed (ws[n := w'] ! m))
     \<longleftrightarrow> (job w' = j \<and> declared_failed w') \<or>
         (\<exists>m<length ws. m \<noteq> n \<and> job (ws ! m) = j \<and> declared_failed (ws ! m))"
  (is "?L \<longleftrightarrow> ?A \<or> ?B")
proof
  assume ?L
  then obtain m where m: "m < length ws" "job (ws[n := w'] ! m) = j" "declared_failed (ws[n := w'] ! m)"
    by auto
  show "?A \<or> ?B"
  proof (cases "m = n")
    case True
    with m assms show ?thesis by simp
  next
    case False
    with m have "m < length ws \<and> m \<noteq> n \<and> job (ws ! m) = j \<and> declared_failed (ws ! m)" by simp
    then show ?thesis by blast
  qed
next
  assume "?A \<or> ?B"
  then show ?L
  proof
    assume ?A
    with assms show ?L by (intro exI [of _ n]) simp
  next
    assume ?B
    then obtain m where "m < length ws" "m \<noteq> n" "job (ws ! m) = j" "declared_failed (ws ! m)" by blast
    then show ?L by (intro exI [of _ m]) simp
  qed
qed

lemma exists_declared_split:
  assumes "n < length ws"
  shows "(\<exists>m<length ws. job (ws ! m) = j \<and> declared_failed (ws ! m))
     \<longleftrightarrow> (job (ws ! n) = j \<and> declared_failed (ws ! n)) \<or>
         (\<exists>m<length ws. m \<noteq> n \<and> job (ws ! m) = j \<and> declared_failed (ws ! m))"
  using assms by auto

lemma flag_inv_worker_step:
  assumes "flag_inv s" "ids_inv s"
  shows "flag_inv (worker_step cfg net n s)"
proof (cases rule: worker_step_frame [of cfg net n s])
  case stutter
  with assms show ?thesis by simp
next
  case (local w w')
  then have "(\<exists>m<length ((workers s)[n := w']). job ((workers s)[n := w'] ! m) = j \<and> declared_failed ((workers s)[n := w'] ! m))
     \<longleftrightarrow> (\<exists>m<length (workers s). job (workers s ! m) = j \<and> declared_failed (workers s ! m))" for j
    using exists_declared_update [of n "workers s" w' j] exists_declared_split [of n "workers s" j]
    by simp
  with assms local show ?thesis by (simp add: flag_inv_def)
next
  case (flag w)
  have d: "declared_failed (w\<lparr>wpc := Exiting\<rparr>)"
    using flag by (simp add: declared_failed_def)
  have nd: "\<not> declared_failed w"
    using flag by (simp add: declared_failed_def)
  have jw: "job w < length (jobs s)"
    using flag assms(2) by (simp add: ids_inv_def)
  have eq: "(\<exists>m<length ((workers s)[n := w\<lparr>wpc := Exiting\<rparr>]).
              job ((workers s)[n := w\<lparr>wpc := Exiting\<rparr>] ! m) = j \<and>
              declared_failed ((workers s)[n := w\<lparr>wpc := Exiting\<rparr>] ! m))
     \<longleftrightarrow> job w = j \<or> (\<exists>m<length (workers s). job (workers s ! m) = j \<and> declared_failed (workers s ! m))" for j
    using exists_declared_update [of n "workers s" "w\<lparr>wpc := Exiting\<rparr>" j]
      exists_declared_split [of n "workers s" j] flag d nd
    by auto
  show ?thesis
    unfolding flag_inv_def
  proof (intro allI impI)
    fix j assume "j < length (jobs (worker_step cfg net n s))"
    then have j: "j < length (jobs s)" using flag by simp
    with assms(1) have old: "errFlag (jobs s ! j) \<longleftrightarrow>
        (\<exists>m<length (workers s). job (workers s ! m) = j \<and> declared_failed (workers s ! m))"
      by (simp add: flag_inv_def)
    show "errFlag (jobs (worker_step cfg net n s) ! j) \<longleftrightarrow>
        (\<exists>m<length (workers (worker_step cfg net n s)).
           job (workers (worker_step cfg net n s) ! m) = j \<and>
           declared_failed (workers (worker_step cfg net n s) ! m))"
      using flag(5,6) eq [of j] old j by (auto simp: nth_upd)
  qed
next
  case (finish w)
  then have "(\<exists>m<length ((workers s)[n := w\<lparr>wpc := Finished\<rparr>]).
                job ((workers s)[n := w\<lparr>wpc := Finished\<rparr>] ! m) = j \<and>
                declared_failed ((workers s)[n := w\<lparr>wpc := Finished\<rparr>] ! m))
     \<longleftrightarrow> (\<exists>m<length (workers s). job (workers s ! m) = j \<and> declared_failed (workers s ! m))" for j
    using exists_declared_update [of n "workers s" "w\<lparr>wpc := Finished\<rparr>" j]
      exists_declared_split [of n "workers s" j]
    by (simp add: declared_failed_def)
  with assms finish show ?thesis by (simp add: flag_inv_def nth_upd)
qed

lemma ret_inv_main_step:
  assumes "ret_inv s"
  shows "ret_inv (main_step j s)"
proof (cases rule: main_step_cases [of j s])
  case stutter
  with assms show ?thesis by simp
next
  case (spawn b)
  with assms show ?thesis by (auto simp: ret_inv_def nth_upd)
next
  case (towait b)
  with assms show ?thesis by (auto simp: ret_inv_def nth_upd)
next
  case (return b)
  with assms show ?thesis by (auto simp: ret_inv_def nth_upd)
qed

lemma ret_inv_worker_step:
  assumes "ret_inv s" "wg_inv s" "ids_inv s"
  shows "ret_inv (worker_step cfg net n s)"
proof (cases rule: worker_step_frame [of cfg net n s])
  case stutter
  with assms show ?thesis by simp
next
  case (local w w')
  with assms show ?thesis by (simp add: ret_inv_def)
next
  case (flag w)
  have jw: "job w < length (jobs s)"
    using flag assms(3) by (simp add: ids_inv_def)
  have "0 < length (filter (\<lambda>x. job x = job w \<and> wpc x \<noteq> Finished) (workers s))"
    using flag by (intro count_pos [of n]) auto
  with assms(2) jw have "0 < wg (jobs s ! job w)" by (simp add: wg_inv_def)
  with assms(1) jw have "mpc (jobs s ! job w) \<noteq> Returned r" for r
    by (auto simp: ret_inv_def)
  with assms(1) flag show ?thesis by (auto simp: ret_inv_def nth_upd)
next
  case (finish w)
  have jw: "job w < length (jobs s)"
    using finish assms(3) by (simp add: ids_inv_def)
  have "0 < length (filter (\<lambda>x. job x = job w \<and> wpc x \<noteq> Finished) (workers s))"
    using finish by (intro count_pos [of n]) auto
  with assms(2) jw have "0 < wg (jobs s ! job w)" by (simp add: wg_inv_def)
  with assms(1) jw have "mpc (jobs s ! job w) \<noteq> Returned r" for r
    by (auto simp: ret_inv_def)
  with assms(1) finish show ?thesis by (auto simp: ret_inv_def nth_upd)
qed

lemma fs_inv_alt: "fs_inv s = (\<forall>m<length (workers s). fs_ok s (workers s ! m))"
  by (simp add: fs_inv_def fs_ok_def)

lemma fs_inv_update:
  assumes "fs_inv s" "fs s \<subseteq> fs s'" "workers s' = (workers s)[n := w']" "fs_ok s' w'"
  shows "fs_inv s'"
  unfolding fs_inv_alt
proof (intro allI impI)
  fix m assume m: "m < length (workers s')"
  show "fs_ok s' (workers s' ! m)"
  proof (cases "m = n")
    case True
    with m assms show ?thesis by simp
  next
    case False
    with m assms have "fs_ok s (workers s ! m)" "workers s' ! m = workers s ! m"
      by (simp_all add: fs_inv_alt)
    with assms(2) show ?thesis by (auto simp: fs_ok_def)
  qed
qed

lemma fs_inv_worker_step:
  assumes "fs_inv s"
  shows "fs_inv (worker_step cfg net n s)"
proof (cases rule: worker_step_cases [of cfg net n s])
  case stutter
  with assms show ?thesis by simp
next
  case (acquire w)
  from assms acquire have "fs_ok s w" by (simp add: fs_inv_alt)
  with acquire have "fs_ok (worker_step cfg net n s) (w\<lparr>wpc := Holding, acquires := acquires w + 1\<rparr>)"
    by (simp add: fs_ok_def)
  then show ?thesis
    by (intro fs_inv_update [OF assms, of _ n "w\<lparr>wpc := Holding, acquires := acquires w + 1\<rparr>"]) (simp_all add: acquire)
next
  case (exhausted w)
  from assms exhausted have "fs_ok s w" by (simp add: fs_inv_alt)
  with exhausted have "fs_ok (worker_step cfg net n s) (w\<lparr>wpc := AfterLoop\<rparr>)"
    by (simp add: fs_ok_def)
  then show ?thesis
    by (intro fs_inv_update [OF assms, of _ n "w\<lparr>wpc := AfterLoop\<rparr>"]) (simp_all add: exhausted)
next
  case (download w e fs')
  have sub: "fs s \<subseteq> fs'"
    using downloadLink_fs_mono [of "fs s" "net (job w) (idx w) (i w)" "link w" "out_dir w"] download(4)
    by simp
  have "e = None \<Longrightarrow> destination (out_dir w) (link w) \<in> fs'"
    using downloadLink_err [of "net (job w) (idx w) (i w)" "link w" "out_dir w" "fs s"]
      downloadLink_fs_ok [of "net (job w) (idx w) (i w)" "out_dir w" "link w" "fs s"] download(4)
    by simp
  then have "fs_ok (worker_step cfg net n s) (w\<lparr>err := e, tries := tries w + 1, wpc := Downloaded\<rparr>)"
    using download by (simp add: fs_ok_def)
  then show ?thesis
    using sub
    by (intro fs_inv_update [OF assms, of _ n "w\<lparr>err := e, tries := tries w + 1, wpc := Downloaded\<rparr>"])
       (simp_all add: download)
next
  case (release_ok w)
  from assms release_ok have "fs_ok s w" by (simp add: fs_inv_alt)
  with release_ok have "fs_ok (worker_step cfg net n s) (w\<lparr>wpc := AfterLoop\<rparr>)"
    by (simp add: fs_ok_def)
  then show ?thesis
    by (intro fs_inv_update [OF assms, of _ n "w\<lparr>wpc := AfterLoop\<rparr>"]) (simp_all add: release_ok)
next
  case (release_retry w)
  from assms release_retry have "fs_ok s w" by (simp add: fs_inv_alt)
  with release_retry have "fs_ok (worker_step cfg net n s) (w\<lparr>i := i w + 1, wpc := AtLoop\<rparr>)"
    by (simp add: fs_ok_def)
  then show ?thesis
    by (intro fs_inv_update [OF assms, of _ n "w\<lparr>i := i w + 1, wpc := AtLoop\<rparr>"]) (simp_all add: release_retry)
next
  case (flag w)
  from assms flag have "fs_ok s w" by (simp add: fs_inv_alt)
  with flag have "fs_ok (worker_step cfg net n s) (w\<lparr>wpc := Exiting\<rparr>)"
    by (simp add: fs_ok_def)
  then show ?thesis
    by (intro fs_inv_update [OF assms, of _ n "w\<lparr>wpc := Exiting\<rparr>"]) (simp_all add: flag)
next
  case (noflag w)
  from assms noflag have "fs_ok s w" by (simp add: fs_inv_alt)
  with noflag have "fs_ok (worker_step cfg net n s) (w\<lparr>wpc := Exiting\<rparr>)"
    by (simp add: fs_ok_def)
  then show ?thesis
    by (intro fs_inv_update [OF assms, of _ n "w\<lparr>wpc := Exiting\<rparr>"]) (simp_all add: noflag)
next
  case (finish w)
  from assms finish have "fs_ok s w" by (simp add: fs_inv_alt)
  with finish have "fs_ok (worker_step cfg net n s) (w\<lparr>wpc := Finished\<rparr>)"
    by (simp add: fs_ok_def)
  then show ?thesis
    by (intro fs_inv_update [OF assms, of _ n "w\<lparr>wpc := Finished\<rparr>"]) (simp_all add: finish)
qed

lemma fs_inv_main_step:
  assumes "fs_inv s"
  shows "fs_inv (main_step j s)"
proof (cases rule: main_step_cases [of j s])
  case stutter
  with assms show ?thesis by simp
next
  case (spawn b)
  with assms show ?thesis by (auto simp: fs_inv_def nth_append less_Suc_eq)
next
  case (towait b)
  with assms show ?thesis by (simp add: fs_inv_def)
next
  case (return b)
  with assms show ?thesis by (simp add: fs_inv_def)
qed

lemma job_inv_step:
  assumes "job_inv calls s"
  shows "job_inv calls (step cfg net s a)"
proof (cases a)
  case (RunMain j)
  with assms show ?thesis
    by (simp add: job_inv_def static_inv_main_step ids_inv_main_step spawn_inv_main_step
          wg_inv_main_step flag_inv_main_step ret_inv_main_step fs_inv_main_step)
next
  case (RunWorker n)
  with assms show ?thesis
    by (simp add: job_inv_def static_inv_worker_step ids_inv_worker_step spawn_inv_worker_step
          wg_inv_worker_step flag_inv_worker_step ret_inv_worker_step fs_inv_worker_step)
qed

lemma job_inv_run: "job_inv calls s \<Longrightarrow> job_inv calls (run cfg net sched s)"
  unfolding run_def
proof (induction sched arbitrary: s)
  case Nil
  then show ?case by simp
next
  case (Cons a sched)
  from Cons.prems have "job_inv calls (step cfg net s a)" by (rule job_inv_step)
  then show ?case using Cons.IH by simp
qed

lemma job_inv_init: "job_inv calls (init calls fs0)"
  by (simp add: job_inv_def static_inv_def ids_inv_def spawn_inv_def wg_inv_def flag_inv_def
        ret_inv_def fs_inv_def init_def bulkDownload_call_def)

lemma sum_update:
  "n < length xs \<Longrightarrow>
   sum_list (map f (xs[n := y])) + f (xs ! n) = sum_list (map f xs) + (f y :: nat)"
proof (induction xs arbitrary: n)
  case Nil
  then show ?case by simp
next
  case (Cons a xs)
  show ?case
  proof (cases n)
    case 0
    then show ?thesis by simp
  next
    case (Suc m)
    with Cons.prems have "m < length xs" by simp
    from Cons.IH [OF this] Suc show ?thesis by simp
  qed
qed

lemma sum_update_same:
  assumes "f y = (f (xs ! n) :: nat)"
  shows "sum_list (map f (xs[n := y])) = sum_list (map f xs)"
proof (cases "n < length xs")
  case True
  from sum_update [OF this, of f y] assms show ?thesis by simp
next
  case False
  then have "xs[n := y] = xs" by (simp add: not_less list_update_beyond)
  then show ?thesis by simp
qed

lemma sum_update_less:
  assumes "n < length xs" "f y < (f (xs ! n) :: nat)"
  shows "sum_list (map f (xs[n := y])) < sum_list (map f xs)"
  using sum_update [OF assms(1), of f y] assms(2) by linarith

lemma worker_step_potential:
  assumes "\<not> worker_blocked cfg s n"
  shows "potential cfg (worker_step cfg net n s) < potential cfg s"
proof (cases rule: worker_step_cases [of cfg net n s])
  case stutter
  with assms show ?thesis by simp
next
  case (acquire w)
  then have "sum_list (map (worker_pot cfg) ((workers s)[n := w\<lparr>wpc := Holding, acquires := acquires w + 1\<rparr>]))
      < sum_list (map (worker_pot cfg) (workers s))"
    by (intro sum_update_less) (auto simp: worker_pot_def)
  with acquire show ?thesis by (simp add: potential_def)
next
  case (exhausted w)
  then have "sum_list (map (worker_pot cfg) ((workers s)[n := w\<lparr>wpc := AfterLoop\<rparr>]))
      < sum_list (map (worker_pot cfg) (workers s))"
    by (intro sum_update_less) (auto simp: worker_pot_def)
  with exhausted show ?thesis by (simp add: potential_def)
next
  case (download w e fs')
  then have "sum_list (map (worker_pot cfg) ((workers s)[n := w\<lparr>err := e, tries := tries w + 1, wpc := Downloaded\<rparr>]))
      < sum_list (map (worker_pot cfg) (workers s))"
    by (intro sum_update_less) (auto simp: worker_pot_def)
  with download show ?thesis by (simp add: potential_def)
next
  case (release_ok w)
  then have "sum_list (map (worker_pot cfg) ((workers s)[n := w\<lparr>wpc := AfterLoop\<rparr>]))
      < sum_list (map (worker_pot cfg) (workers s))"
    by (intro sum_update_less) (auto simp: worker_pot_def)
  with release_ok show ?thesis by (simp add: potential_def)
next
  case (release_retry w)
  then have "sum_list (map (worker_pot cfg) ((workers s)[n := w\<lparr>i := i w + 1, wpc := AtLoop\<rparr>]))
      < sum_list (map (worker_pot cfg) (workers s))"
    by (intro sum_update_less) (auto simp: worker_pot_def)
  with release_retry show ?thesis by (simp add: potential_def)
next
  case (flag w)
  then have "sum_list (map (worker_pot cfg) ((workers s)[n := w\<lparr>wpc := Exiting\<rparr>]))
      < sum_list (map (worker_pot cfg) (workers s))"
    by (intro sum_update_less) (auto simp: worker_pot_def)
  moreover have "sum_list (map (main_pot cfg) ((jobs s)[job w := (jobs s ! job w)\<lparr>errFlag := True\<rparr>]))
      = sum_list (map (main_pot cfg) (jobs s))"
    by (intro sum_update_same) (simp add: main_pot_def split: mpc.splits)
  ultimately show ?thesis using flag by (simp add: potential_def)
next
  case (noflag w)
  then have "sum_list (map (worker_pot cfg) ((workers s)[n := w\<lparr>wpc := Exiting\<rparr>]))
      < sum_list (map (worker_pot cfg) (workers s))"
    by (intro sum_update_less) (auto simp: worker_pot_def)
  with noflag show ?thesis by (simp add: potential_def)
next
  case (finish w)
  then have "sum_list (map (worker_pot cfg) ((workers s)[n := w\<lparr>wpc := Finished\<rparr>]))
      < sum_list (map (worker_pot cfg) (workers s))"
    by (intro sum_update_less) (auto simp: worker_pot_def)
  moreover have "sum_list (map (main_pot cfg) ((jobs s)[job w := (jobs s ! job w)\<lparr>wg := wg (jobs s ! job w) - 1\<rparr>]))
      = sum_list (map (main_pot cfg) (jobs s))"
    by (intro sum_update_same) (simp add: main_pot_def split: mpc.splits)
  ultimately show ?thesis using finish by (simp add: potential_def)
qed

lemma main_step_potential:
  assumes "\<not> main_blocked s j"
  shows "potential cfg (main_step j s) < potential cfg s"
proof (cases rule: main_step_cases [of j s])
  case stutter
  with assms show ?thesis by simp
next
  case (spawn b)
  let ?b' = "b\<lparr>wg := wg b + 1, spawned := spawned b + 1\<rparr>"
  from spawn obtain d where d: "length (links b) - spawned b = Suc d"
    by (cases "length (links b) - spawned b") auto
  then have "length (links b) - Suc (spawned b) = d" by simp
  with d spawn have "main_pot cfg ?b' + (3 * MaxRetryAttempts cfg + 4) = main_pot cfg (jobs s ! j)"
    by (simp add: main_pot_def)
  with sum_update [of j "jobs s" "main_pot cfg" ?b'] spawn
  have "sum_list (map (main_pot cfg) ((jobs s)[j := ?b'])) + (3 * MaxRetryAttempts cfg + 4)
      = sum_list (map (main_pot cfg) (jobs s))"
    by simp
  with spawn show ?thesis by (simp add: potential_def worker_pot_def)
next
  case (towait b)
  then have "sum_list (map (main_pot cfg) ((jobs s)[j := b\<lparr>mpc := Waiting\<rparr>]))
      < sum_list (map (main_pot cfg) (jobs s))"
    by (intro sum_update_less) (auto simp: main_pot_def)
  with towait show ?thesis by (simp add: potential_def)
next
  case (return b)
  then have "sum_list (map (main_pot cfg)
        ((jobs s)[j := b\<lparr>mpc := Returned (if errFlag b then Some ''lack of aac files'' else None)\<rparr>]))
      < sum_list (map (main_pot cfg) (jobs s))"
    by (intro sum_update_less) (auto simp: main_pot_def)
  with return show ?thesis by (simp add: potential_def)
qed

lemma progress:
  assumes cap: "0 < MaxConcurrency cfg" and inv: "sem_inv cfg s" "wg_inv s"
    and nr: "\<not> all_returned s"
  shows "\<exists>a. potential cfg (step cfg net s a) < potential cfg s"
proof -
  from nr obtain j where j: "j < length (jobs s)" "\<not> returned (jobs s ! j)"
    by (auto simp: all_returned_def list_all_length)
  show ?thesis
  proof (cases "main_blocked s j")
    case False
    then have "potential cfg (step cfg net s (RunMain j)) < potential cfg s"
      by (simp add: main_step_potential)
    then show ?thesis ..
  next
    case True
    with j have "mpc (jobs s ! j) = Waiting" "wg (jobs s ! j) \<noteq> 0"
      by (auto simp: main_blocked_def returned_def)
    with inv(2) j have "filter (\<lambda>w. job w = j \<and> wpc w \<noteq> Finished) (workers s) \<noteq> []"
      by (auto simp: wg_inv_def)
    then obtain w where "w \<in> set (workers s)" "wpc w \<noteq> Finished"
      by (auto simp: filter_empty_conv)
    then obtain m where m: "m < length (workers s)" "wpc (workers s ! m) \<noteq> Finished"
      by (auto simp: in_set_conv_nth)
    show ?thesis
    proof (cases "worker_blocked cfg s m")
      case False
      then have "potential cfg (step cfg net s (RunWorker m)) < potential cfg s"
        by (simp add: worker_step_potential)
      then show ?thesis ..
    next
      case True
      with m have "\<not> sem s < MaxConcurrency cfg" by (auto simp: worker_blocked_def)
      with cap inv(1) have "filter holding (workers s) \<noteq> []"
        by (auto simp: sem_inv_def holders_def)
      then obtain h where "h \<in> set (workers s)" "holding h"
        by (auto simp: filter_empty_conv)
      then obtain n where "n < length (workers s)" "holding (workers s ! n)"
        by (auto simp: in_set_conv_nth)
      then have "\<not> worker_blocked cfg s n"
        by (auto simp: worker_blocked_def holding_def)
      then have "potential cfg (step cfg net s (RunWorker n)) < potential cfg s"
        by (simp add: worker_step_potential)
      then show ?thesis ..
    qed
  qed
qed

lemma can_return:
  assumes "0 < MaxConcurrency cfg"
  shows "sem_inv cfg s \<Longrightarrow> job_inv calls s \<Longrightarrow> \<exists>sched. all_returned (run cfg net sched s)"
proof (induction "potential cfg s" arbitrary: s rule: less_induct)
  case less
  show ?case
  proof (cases "all_returned s")
    case True
    then have "all_returned (run cfg net [] s)" by (simp add: run_def)
    then show ?thesis ..
  next
    case False
    from less.prems have "wg_inv s" by (simp add: job_inv_def)
    from progress [OF assms less.prems(1) this False]
    obtain a where a: "potential cfg (step cfg net s a) < potential cfg s" by blast
    have "sem_inv cfg (step cfg net s a)" "job_inv calls (step cfg net s a)"
      using less.prems by (simp_all add: sem_inv_step job_inv_step)
    from less.hyps [OF a this] obtain sched where "all_returned (run cfg net sched (step cfg net s a))"
      by blast
    then have "all_returned (run cfg net (a # sched) s)" by (simp add: run_def)
    then show ?thesis ..
  qed
qed

lemma run_append: "run cfg net (xs @ ys) s = run cfg net ys (run cfg net xs s)"
  by (simp add: run_def)

lemma reachable_inv:
  "sem_inv cfg (run cfg net sched (init calls fs0))"
  "workers_inv cfg net (run cfg net sched (init calls fs0))"
  "job_inv calls (run cfg net sched (init calls fs0))"
  by (simp_all add: sem_inv_run sem_inv_init workers_inv_run workers_inv_init job_inv_run job_inv_init)

lemma returned_job:
  assumes M: "0 < MaxRetryAttempts cfg" and j: "j < length calls"
    and wi: "workers_inv cfg net s" and ji: "job_inv calls s"
    and r: "mpc (jobs s ! j) = Returned r"
  shows "(\<forall>k<length (fst (calls ! j)). uri_finished s j k (fst (calls ! j) ! k))"
    and "r = (if failures cfg net j (length (fst (calls ! j))) = [] then None else Some ''lack of aac files'')"
    and "(\<forall>k<length (fst (calls ! j)). k \<notin> set (failures cfg net j (length (fst (calls ! j)))) \<longrightarrow>
           destination (snd (calls ! j)) (fst (calls ! j) ! k) \<in> fs s)"
proof -
  from ji have st: "static_inv calls s" and ids: "ids_inv s" and sp: "spawn_inv s"
    and wgi: "wg_inv s" and fl: "flag_inv s" and ri: "ret_inv s" and fsi: "fs_inv s"
    by (simp_all add: job_inv_def)
  from st j have jl: "j < length (jobs s)" and lk: "links (jobs s ! j) = fst (calls ! j)"
    and od: "output_dir (jobs s ! j) = snd (calls ! j)"
    by (simp_all add: static_inv_def)
  from ri jl r have wg0: "wg (jobs s ! j) = 0"
    and rv: "r = (if errFlag (jobs s ! j) then Some ''lack of aac files'' else None)"
    by (auto simp: ret_inv_def)
  from sp jl r have full: "spawned (jobs s ! j) = length (links (jobs s ! j))"
    by (auto simp: spawn_inv_def)
  have fin: "wpc (workers s ! m) = Finished" if "m < length (workers s)" "job (workers s ! m) = j" for m
  proof (rule ccontr)
    assume "wpc (workers s ! m) \<noteq> Finished"
    with that have "0 < length (filter (\<lambda>w. job w = j \<and> wpc w \<noteq> Finished) (workers s))"
      by (intro count_pos [of m]) auto
    with wgi jl wg0 show False by (simp add: wg_inv_def)
  qed
  have ex: "\<exists>m<length (workers s). job (workers s ! m) = j \<and> idx (workers s ! m) = k \<and>
      link (workers s ! m) = fst (calls ! j) ! k \<and> out_dir (workers s ! m) = snd (calls ! j) \<and>
      wpc (workers s ! m) = Finished"
    if "k < length (fst (calls ! j))" for k
  proof -
    from sp jl have "\<forall>k<spawned (jobs s ! j).
        \<exists>m<length (workers s). job (workers s ! m) = j \<and> idx (workers s ! m) = k"
      by (simp add: spawn_inv_def)
    with that full lk obtain m where m: "m < length (workers s)" "job (workers s ! m) = j"
      "idx (workers s ! m) = k"
      by auto
    with ids lk od have "link (workers s ! m) = fst (calls ! j) ! k" "out_dir (workers s ! m) = snd (calls ! j)"
      by (auto simp: ids_inv_def)
    with m fin [of m] show ?thesis by blast
  qed
  show "\<forall>k<length (fst (calls ! j)). uri_finished s j k (fst (calls ! j) ! k)"
  proof (intro allI impI)
    fix k assume "k < length (fst (calls ! j))"
    from ex [OF this] obtain m where "m < length (workers s)" "job (workers s ! m) = j"
      "idx (workers s ! m) = k" "link (workers s ! m) = fst (calls ! j) ! k" "wpc (workers s ! m) = Finished"
      by blast
    then show "uri_finished s j k (fst (calls ! j) ! k)"
      unfolding uri_finished_def list_ex_iff by (intro bexI [of _ "workers s ! m"]) auto
  qed
  have fails: "exhausted cfg net j k \<longleftrightarrow> err (workers s ! m) \<noteq> None"
    if m: "m < length (workers s)" "job (workers s ! m) = j" "idx (workers s ! m) = k" for m k
  proof -
    from wi m have w: "winv cfg net (workers s ! m)" by (simp add: workers_inv_def)
    from fin m have f: "wpc (workers s ! m) = Finished" by simp
    show ?thesis
    proof (cases "err (workers s ! m)")
      case None
      with w f M m have "attempt_ok (net j k (i (workers s ! m)))" "i (workers s ! m) < MaxRetryAttempts cfg"
        by (auto simp: winv_def exited_def)
      with None show ?thesis by (auto simp: exhausted_iff)
    next
      case (Some e)
      with w f m have "\<forall>a<MaxRetryAttempts cfg. \<not> attempt_ok (net j k a)"
        by (auto simp: winv_def exited_def)
      with Some show ?thesis by (simp add: exhausted_iff)
    qed
  qed
  have "errFlag (jobs s ! j) \<longleftrightarrow> failures cfg net j (length (fst (calls ! j))) \<noteq> []"
  proof
    assume "errFlag (jobs s ! j)"
    with fl jl obtain m where m: "m < length (workers s)" "job (workers s ! m) = j"
      "declared_failed (workers s ! m)"
      by (auto simp: flag_inv_def)
    with ids full lk have k: "idx (workers s ! m) < length (fst (calls ! j))"
      by (auto simp: ids_inv_def)
    from m fails [of m "idx (workers s ! m)"] have "exhausted cfg net j (idx (workers s ! m))"
      by (simp add: declared_failed_def)
    with k show "failures cfg net j (length (fst (calls ! j))) \<noteq> []"
      by (auto simp: failures_def filter_empty_conv)
  next
    assume "failures cfg net j (length (fst (calls ! j))) \<noteq> []"
    then obtain k where k: "k < length (fst (calls ! j))" "exhausted cfg net j k"
      by (auto simp: failures_def filter_empty_conv)
    from ex [OF k(1)] obtain m where m: "m < length (workers s)" "job (workers s ! m) = j"
      "idx (workers s ! m) = k" "wpc (workers s ! m) = Finished"
      by blast
    with fails [of m k] k have "declared_failed (workers s ! m)"
      by (simp add: declared_failed_def)
    with fl jl m show "errFlag (jobs s ! j)" by (auto simp: flag_inv_def)
  qed
  with rv show "r = (if failures cfg net j (length (fst (calls ! j))) = [] then None else Some ''lack of aac files'')"
    by simp
  show "\<forall>k<length (fst (calls ! j)). k \<notin> set (failures cfg net j (length (fst (calls ! j)))) \<longrightarrow>
           destination (snd (calls ! j)) (fst (calls ! j) ! k) \<in> fs s"
  proof (intro allI impI)
    fix k assume k: "k < length (fst (calls ! j))" "k \<notin> set (failures cfg net j (length (fst (calls ! j))))"
    then have ne: "\<not> exhausted cfg net j k" by (simp add: failures_def)
    from ex [OF k(1)] obtain m where m: "m < length (workers s)" "job (workers s ! m) = j"
      "idx (workers s ! m) = k" "link (workers s ! m) = fst (calls ! j) ! k"
      "out_dir (workers s ! m) = snd (calls ! j)" "wpc (workers s ! m) = Finished"
      by blast
    with fails [of m k] ne have e: "err (workers s ! m) = None" by simp
    from wi m have "winv cfg net (workers s ! m)" by (simp add: workers_inv_def)
    with e m M have "0 < tries (workers s ! m)" by (auto simp: winv_def exited_def)
    with fsi m e show "destination (snd (calls ! j)) (fst (calls ! j) ! k) \<in> fs s"
      by (auto simp: fs_inv_def)
  qed
qed

lemma demo_returned:
  "mpc (jobs (run demo_cfg demo_net demo_sched (init demo_calls {})) ! 0)
     = Returned (Some ''lack of aac files'')"
  by code_simp

lemma demo_failures: "failures demo_cfg demo_net 0 2 = [0]"
  by code_simp

text \<open>
  Claim C1. With at least one attempt per link: whenever a call of \<open>bulkDownload\<close> has
  returned, under any schedule and any behaviour of the network, the goroutine of every
  one of its N links has finished; the result is nil when no link exhausts its retry
  budget and the aggregate error "lack of aac files" when at least one does; and the
  file of every link that did not exhaust its budget exists in the destination
  directory, also when the error is returned. And the call can return: with a positive
  \<open>MaxConcurrency\<close>, every schedule has a continuation after which every call has
  returned.
\<close>

theorem bulkDownload_waits_and_reports:
  assumes "0 < MaxRetryAttempts cfg" and "j < length calls"
  shows "(0 < MaxConcurrency cfg \<longrightarrow>
            (\<exists>more. all_returned (run cfg net (sched @ more) (init calls fs0)))) \<and>
         (\<forall>r. mpc (jobs (run cfg net sched (init calls fs0)) ! j) = Returned r \<longrightarrow>
            (\<forall>k<length (fst (calls ! j)).
               uri_finished (run cfg net sched (init calls fs0)) j k (fst (calls ! j) ! k)) \<and>
            r = (if failures cfg net j (length (fst (calls ! j))) = [] then None
                 else Some ''lack of aac files'') \<and>
            (\<forall>k<length (fst (calls ! j)).
               k \<notin> set (failures cfg net j (length (fst (calls ! j)))) \<longrightarrow>
               destination (snd (calls ! j)) (fst (calls ! j) ! k)
                 \<in> fs (run cfg net sched (init calls fs0))))"
proof (rule conjI)
  show "0 < MaxConcurrency cfg \<longrightarrow>
          (\<exists>more. all_returned (run cfg net (sched @ more) (init calls fs0)))"
  proof
    assume "0 < MaxConcurrency cfg"
    then have "\<exists>more. all_returned (run cfg net more (run cfg net sched (init calls fs0)))"
      by (rule can_return [OF _ reachable_inv(1) reachable_inv(3)])
    then show "\<exists>more. all_returned (run cfg net (sched @ more) (init calls fs0))"
      by (simp add: run_append)
  qed
next
  show "\<forall>r. mpc (jobs (run cfg net sched (init calls fs0)) ! j) = Returned r \<longrightarrow>
            (\<forall>k<length (fst (calls ! j)).
               uri_finished (run cfg net sched (init calls fs0)) j k (fst (calls ! j) ! k)) \<and>
            r = (if failures cfg net j (length (fst (calls ! j))) = [] then None
                 else Some ''lack of aac files'') \<and>
            (\<forall>k<length (fst (calls ! j)).
               k \<notin> set (failures cfg net j (length (fst (calls ! j)))) \<longrightarrow>
               destination (snd (calls ! j)) (fst (calls ! j) ! k)
                 \<in> fs (run cfg net sched (init calls fs0)))"
  proof (intro allI impI)
    fix r assume r: "mpc (jobs (run cfg net sched (init calls fs0)) ! j) = Returned r"
    note R = returned_job [OF assms reachable_inv(2) reachable_inv(3) r]
    from R(1) R(2) R(3)
    show "(\<forall>k<length (fst (calls ! j)).
               uri_finished (run cfg net sched (init calls fs0)) j k (fst (calls ! j) ! k)) \<and>
            r = (if failures cfg net j (length (fst (calls ! j))) = [] then None
                 else Some ''lack of aac files'') \<and>
            (\<forall>k<length (fst (calls ! j)).
               k \<notin> set (failures cfg net j (length (fst (calls ! j)))) \<longrightarrow>
               destination (snd (calls ! j)) (fst (calls ! j) ! k)
                 \<in> fs (run cfg net sched (init calls fs0)))"
      by (intro conjI)
  qed
qed

theorem bulkDownload_waits_and_reports_witness:
  "all_returned (run demo_cfg demo_net demo_sched (init demo_calls {})) \<and>
   uri_finished (run demo_cfg demo_net demo_sched (init demo_calls {})) 0 0 ''http://h/a/s0.aac'' \<and>
   uri_finished (run demo_cfg demo_net demo_sched (init demo_calls {})) 0 1 ''http://h/a/s1.aac'' \<and>
   failures demo_cfg demo_net 0 2 = [0] \<and>
   destination ''/tmp/aac'' ''http://h/a/s1.aac''
     \<in> fs (run demo_cfg demo_net demo_sched (init demo_calls {}))"
proof -
  have M: "0 < MaxRetryAttempts demo_cfg" and j: "(0::nat) < length demo_calls"
    by (simp_all add: demo_cfg_def demo_calls_def)
  have c: "fst (demo_calls ! 0) = [''http://h/a/s0.aac'', ''http://h/a/s1.aac'']"
    "snd (demo_calls ! 0) = ''/tmp/aac''"
    by (simp_all add: demo_calls_def)
  have a: "all_returned (run demo_cfg demo_net demo_sched (init demo_calls {}))"
    by code_simp
  have len: "length (fst (demo_calls ! 0)) = 2"
    by (simp add: demo_calls_def)
  from bulkDownload_waits_and_reports [OF M j, of demo_net demo_sched "{}"] demo_returned
  have R: "\<forall>k<length (fst (demo_calls ! 0)).
             uri_finished (run demo_cfg demo_net demo_sched (init demo_calls {})) 0 k
               (fst (demo_calls ! 0) ! k)"
    and F: "\<forall>k<length (fst (demo_calls ! 0)).
             k \<notin> set (failures demo_cfg demo_net 0 (length (fst (demo_calls ! 0)))) \<longrightarrow>
             destination (snd (demo_calls ! 0)) (fst (demo_calls ! 0) ! k)
               \<in> fs (run demo_cfg demo_net demo_sched (init demo_calls {}))"
    by blast+
  from R [rule_format, of 0] R [rule_format, of 1] F [rule_format, of 1]
  have "uri_finished (run demo_cfg demo_net demo_sched (init demo_calls {})) 0 0 ''http://h/a/s0.aac''"
    "uri_finished (run demo_cfg demo_net demo_sched (init demo_calls {})) 0 1 ''http://h/a/s1.aac''"
    "destination ''/tmp/aac'' ''http://h/a/s1.aac''
       \<in> fs (run demo_cfg demo_net demo_sched (init demo_calls {}))"
    by (simp_all add: len demo_failures [unfolded numeral_2_eq_2] c)
  with a demo_failures show ?thesis by simp
qed

text \<open>
  Claim C4. For every goroutine of every job, at every moment: it has called
  \<open>downloadLink\<close> at most \<open>MaxRetryAttempts\<close> times; it has acquired a slot of the
  semaphore once for every call, retries included (and once more when it holds a slot
  and has not called yet); every attempt before its last one failed, so it stops at the
  first success; it declares the link failed only after \<open>MaxRetryAttempts\<close> failed
  attempts; and when it leaves the loop without an error, its last attempt succeeded.
  The retry is immediate: the step of a goroutine after a failed attempt releases the
  slot and puts it back at the head of the loop with \<open>i\<close> one higher, and its step
  from there, with an attempt left and a free slot, is the next acquisition; no step
  waits.
\<close>

theorem retry_loop_attempts:
  assumes "m < length (workers (run cfg net sched (init calls fs0)))"
  shows "let s = run cfg net sched (init calls fs0); w = workers s ! m in
           tries w \<le> MaxRetryAttempts cfg \<and>
           acquires w = tries w + (if wpc w = Holding then 1 else 0) \<and>
           (\<forall>a. Suc a < tries w \<longrightarrow> \<not> attempt_ok (net (job w) (idx w) a)) \<and>
           (declared_failed w \<longrightarrow>
              tries w = MaxRetryAttempts cfg \<and> exhausted cfg net (job w) (idx w)) \<and>
           (exited w \<and> err w = None \<and> 0 < MaxRetryAttempts cfg \<longrightarrow>
              0 < tries w \<and> attempt_ok (net (job w) (idx w) (tries w - 1))) \<and>
           (wpc w = Downloaded \<and> err w \<noteq> None \<longrightarrow>
              wpc (workers (worker_step cfg net m s) ! m) = AtLoop \<and>
              i (workers (worker_step cfg net m s) ! m) = i w + 1) \<and>
           (wpc w = AtLoop \<and> i w < MaxRetryAttempts cfg \<and> sem s < MaxConcurrency cfg \<longrightarrow>
              wpc (workers (worker_step cfg net m s) ! m) = Holding)"
proof -
  define s where "s = run cfg net sched (init calls fs0)"
  define w where "w = workers s ! m"
  from assms have m: "m < length (workers s)" by (simp add: s_def)
  from reachable_inv(2) [of cfg net sched calls fs0] m have w: "winv cfg net w"
    by (simp add: workers_inv_def w_def s_def)
  have 1: "tries w \<le> MaxRetryAttempts cfg"
    using w by (cases "wpc w") (auto simp: winv_def exited_def split: if_splits)
  have 2: "acquires w = tries w + (if wpc w = Holding then 1 else 0)"
    using w by (cases "wpc w") (auto simp: winv_def exited_def split: if_splits)
  have 3: "\<not> attempt_ok (net (job w) (idx w) a)" if "Suc a < tries w" for a
    using w that by (cases "wpc w") (auto simp: winv_def exited_def split: if_splits)
  have 4: "tries w = MaxRetryAttempts cfg \<and> exhausted cfg net (job w) (idx w)" if "declared_failed w"
    using w that by (auto simp: winv_def exited_def declared_failed_def exhausted_iff)
  have 5: "0 < tries w \<and> attempt_ok (net (job w) (idx w) (tries w - 1))"
    if "exited w \<and> err w = None \<and> 0 < MaxRetryAttempts cfg"
    using w that by (auto simp: winv_def)
  have 6: "wpc (workers (worker_step cfg net m s) ! m) = AtLoop \<and>
      i (workers (worker_step cfg net m s) ! m) = i w + 1"
    if "wpc w = Downloaded \<and> err w \<noteq> None"
    using that m by (auto simp: worker_step_def w_def Let_def)
  have 7: "wpc (workers (worker_step cfg net m s) ! m) = Holding"
    if "wpc w = AtLoop \<and> i w < MaxRetryAttempts cfg \<and> sem s < MaxConcurrency cfg"
    using that m by (simp add: worker_step_def w_def Let_def)
  from 1 2 3 4 5 6 7 show ?thesis
    unfolding s_def [symmetric] Let_def w_def [symmetric] by blast
qed

theorem retry_loop_attempts_witness:
  "tries (workers (run demo_cfg demo_net demo_sched (init demo_calls {})) ! 0) = 2 \<and>
   acquires (workers (run demo_cfg demo_net demo_sched (init demo_calls {})) ! 0) = 2 \<and>
   exhausted demo_cfg demo_net 0 0"
proof -
  let ?w = "workers (run demo_cfg demo_net demo_sched (init demo_calls {})) ! 0"
  have len: "0 < length (workers (run demo_cfg demo_net demo_sched (init demo_calls {})))"
    by code_simp
  have d: "declared_failed ?w" and p: "wpc ?w = Finished" and jk: "job ?w = 0" "idx ?w = 0"
    by code_simp+
  have M: "MaxRetryAttempts demo_cfg = 2" by (simp add: demo_cfg_def)
  from retry_loop_attempts [OF len] d p jk M show ?thesis
    by (simp add: Let_def)
qed

text \<open>
  Claim C5. Under any schedule, for any number of calls of \<open>bulkDownload\<close> running in
  the process, the goroutines that hold a slot of the semaphore are never more than
  \<open>MaxConcurrency\<close>, and they are as many as the tokens in the one channel.
\<close>

theorem slots_bounded:
  "holders (run cfg net sched (init calls fs0)) \<le> MaxConcurrency cfg \<and>
   sem (run cfg net sched (init calls fs0)) = holders (run cfg net sched (init calls fs0))"
  using reachable_inv(1) [of cfg net sched calls fs0] by (simp add: sem_inv_def)

theorem slots_bounded_witness:
  "holders (run demo_cfg demo_net [RunMain 0, RunMain 1, RunWorker 0, RunWorker 1] (init demo_two_calls {})) = 1 \<and>
   holders (run demo_cfg demo_net [RunMain 0, RunMain 1, RunWorker 0, RunWorker 1] (init demo_two_calls {}))
     \<le> MaxConcurrency demo_cfg \<and>
   job (workers (run demo_cfg demo_net [RunMain 0, RunMain 1, RunWorker 0, RunWorker 1] (init demo_two_calls {})) ! 1) = 1 \<and>
   wpc (workers (run demo_cfg demo_net [RunMain 0, RunMain 1, RunWorker 0, RunWorker 1] (init demo_two_calls {})) ! 1) = AtLoop"
proof -
  have "holders (run demo_cfg demo_net [RunMain 0, RunMain 1, RunWorker 0, RunWorker 1] (init demo_two_calls {})) = 1"
    "job (workers (run demo_cfg demo_net [RunMain 0, RunMain 1, RunWorker 0, RunWorker 1] (init demo_two_calls {})) ! 1) = 1"
    "wpc (workers (run demo_cfg demo_net [RunMain 0, RunMain 1, RunWorker 0, RunWorker 1] (init demo_two_calls {})) ! 1) = AtLoop"
    by code_simp+
  with slots_bounded [of demo_cfg demo_net "[RunMain 0, RunMain 1, RunWorker 0, RunWorker 1]" demo_two_calls "{}"]
  show ?thesis by simp
qed

section \<open>Properties of Download and downloadProgram\<close>

lemma ParseInLocation_length: "ParseInLocation l v = Inr t \<Longrightarrow> 4 \<le> length v"
  by (auto simp: ParseInLocation_def split: if_splits option.splits)

lemma tagging_slice:
  "tagging w prog out = (Panicked SliceBounds, evs) \<Longrightarrow> length (Ft prog) < 4"
  by (auto simp: tagging_def Let_def split: opened.splits if_splits)

lemma finalize_slice:
  "finalize w prog out f = (Panicked SliceBounds, evs) \<Longrightarrow> length (Ft prog) < 4"
  by (auto simp: finalize_def split: if_splits option.splits prod.splits dest: tagging_slice)

lemma download_and_concat_slice:
  "download_and_concat w prog out cl d = (Panicked SliceBounds, evs) \<Longrightarrow> length (Ft prog) < 4"
  by (auto simp: download_and_concat_def split: mpc.splits option.splits sum.splits prod.splits
        dest: finalize_slice)

lemma downloadProgram_slice:
  "downloadProgram w prog uri out = (Panicked SliceBounds, evs) \<Longrightarrow> length (Ft prog) < 4"
  by (auto simp: downloadProgram_def split: sum.splits outcome.splits option.splits prod.splits
        dest: download_and_concat_slice)

lemma detached_job_slice:
  "detached_job w prog st out = (Panicked SliceBounds, evs) \<Longrightarrow> length (Ft prog) < 4"
  by (auto simp: detached_job_def split: outcome.splits prod.splits if_splits
        dest: downloadProgram_slice)

text \<open>
  Claim C10. When the start timestamp of the program does not parse, \<open>Download\<close>
  returns an error and nothing has happened: no event, no detached work. So a run that
  reaches \<open>id3v2.Open\<close> has a start timestamp of at least four characters, and the
  detached work never panics on \<open>prog.Ft[:4]\<close>.
\<close>

theorem Download_parse_guard:
  "(\<forall>e. ParseInLocation (later_fields c) (Ft prog) = Inl e \<longrightarrow>
      ret (Download c w prog st) \<noteq> None \<and> events (Download c w prog st) = [] \<and>
      detached (Download c w prog st) = None) \<and>
   (\<forall>p. TagOpen p \<in> set (events (Download c w prog st)) \<longrightarrow> 4 \<le> length (Ft prog)) \<and>
   detached (Download c w prog st) \<noteq> Some (Panicked SliceBounds)"
proof (intro conjI allI impI)
  fix e assume "ParseInLocation (later_fields c) (Ft prog) = Inl e"
  then show "ret (Download c w prog st) \<noteq> None" "events (Download c w prog st) = []"
    "detached (Download c w prog st) = None"
    by (simp_all add: Download_def)
next
  fix p assume p: "TagOpen p \<in> set (events (Download c w prog st))"
  show "4 \<le> length (Ft prog)"
  proof (cases "ParseInLocation (later_fields c) (Ft prog)")
    case (Inl e)
    with p show ?thesis by (simp add: Download_def)
  next
    case (Inr t)
    then show ?thesis by (rule ParseInLocation_length)
  qed
next
  show "detached (Download c w prog st) \<noteq> Some (Panicked SliceBounds)"
  proof
    assume d: "detached (Download c w prog st) = Some (Panicked SliceBounds)"
    show False
    proof (cases "ParseInLocation (later_fields c) (Ft prog)")
      case (Inl e)
      with d show ?thesis by (simp add: Download_def)
    next
      case (Inr t)
      then have len: "4 \<le> length (Ft prog)" by (rule ParseInLocation_length)
      from d Inr obtain out evs where "detached_job w prog st out = (Panicked SliceBounds, evs)"
        by (auto simp: Download_def Let_def split: if_splits sum.splits option.splits prod.splits)
      then have "length (Ft prog) < 4" by (rule detached_job_slice)
      with len show False by simp
    qed
  qed
qed

theorem Download_parse_guard_witness:
  "events (Download demo_caller (demo_detached Opened) (demo_prog ''bogus'') ''TBS'') = [] \<and>
   detached (Download demo_caller (demo_detached Opened) (demo_prog ''bogus'') ''TBS'') = None \<and>
   4 \<le> length (Ft (demo_prog ''202401010500''))"
proof -
  have bad: "ParseInLocation (later_fields demo_caller) (Ft (demo_prog ''bogus'')) = Inl ''cannot parse as 2006''"
    by code_simp
  have good: "TagOpen ''/out/20240101-0500_TBS_News.aac''
      \<in> set (events (Download demo_caller (demo_detached Opened) (demo_prog ''202401010500'') ''TBS''))"
    by code_simp
  from Download_parse_guard [of demo_caller "demo_prog ''bogus''" "demo_detached Opened" "''TBS''"] bad
  have "events (Download demo_caller (demo_detached Opened) (demo_prog ''bogus'') ''TBS'') = []"
    "detached (Download demo_caller (demo_detached Opened) (demo_prog ''bogus'') ''TBS'') = None"
    by blast+
  moreover
  from Download_parse_guard [of demo_caller "demo_prog ''202401010500''" "demo_detached Opened" "''TBS''"] good
  have "4 \<le> length (Ft (demo_prog ''202401010500''))" by blast
  ultimately show ?thesis by simp
qed

text \<open>
  Claim C7 as stated fails: for a program whose start timestamp does not parse,
  \<open>Download\<close> returns an error to its caller.
\<close>

theorem Download_returns_error:
  "ret (Download demo_caller (demo_detached Opened) (demo_prog ''bogus'') ''TBS'') \<noteq> None"
  by code_simp

text \<open>
  Claim C7, as amended. The return value of \<open>Download\<close> does not depend on anything
  the detached work meets; once the work is detached \<open>Download\<close> returns nil; and it
  returns an error exactly when the start timestamp does not parse or, for a program
  that is not in the future, the output configuration or the setup of the output
  directory fails.
\<close>

theorem Download_error_only_before_detach:
  "ret (Download c w prog st) = ret (Download c w' prog st) \<and>
   (detached (Download c w prog st) \<noteq> None \<longrightarrow> ret (Download c w prog st) = None) \<and>
   (ret (Download c w prog st) \<noteq> None \<longleftrightarrow>
      (case ParseInLocation (later_fields c) (Ft prog) of
         Inl e \<Rightarrow> True
       | Inr t \<Rightarrow>
           \<not> t > CurrentTime c \<and>
           (case NewOutputConfig c (Format c t @ ''_'' @ st @ ''_'' @ Title prog) of
              Inl e \<Rightarrow> True
            | Inr out \<Rightarrow> SetupDir c \<noteq> None)))"
  by (auto simp: Download_def Let_def split: sum.splits option.splits prod.splits)

theorem Download_error_only_before_detach_witness:
  "ret (Download demo_caller (demo_detached (OpenFailed ''too many open files''))
          (demo_prog ''202401010500'') ''TBS'') = None \<and>
   detached (Download demo_caller (demo_detached (OpenFailed ''too many open files''))
          (demo_prog ''202401010500'') ''TBS'') = Some (Panicked NilPointer)"
proof -
  have d: "detached (Download demo_caller (demo_detached (OpenFailed ''too many open files''))
          (demo_prog ''202401010500'') ''TBS'') = Some (Panicked NilPointer)"
    by code_simp
  with Download_error_only_before_detach
    [of demo_caller "demo_detached (OpenFailed ''too many open files'')"
        "demo_prog ''202401010500''" "''TBS''"
        "demo_detached (OpenFailed ''too many open files'')"]
  show ?thesis by simp
qed

text \<open>
  Claim C8. When \<open>id3v2.Open\<close> cannot open the finalized file, the error is logged
  and the next statement panics on the nil tag: the tagging step does not complete and
  the success message is not logged. When \<open>id3v2.Open\<close> returns a tag, with or without
  a parse error, and the start timestamp has four characters, the step completes and
  logs the final path, whatever \<open>tag.Save\<close> returns.
\<close>

theorem tagging_open_failure:
  "(id3v2_Open w = OpenFailed e \<longrightarrow>
      tagging w prog out
        = (Panicked NilPointer,
           [TagOpen (AbsPath out), Log ''error while opening the output file: %s'' [e]])) \<and>
   ((id3v2_Open w = Opened \<or> id3v2_Open w = ParseFailed e) \<and> 4 \<le> length (Ft prog) \<longrightarrow>
      fst (tagging w prog out) = Completed \<and>
      Log ''+file saved: %s'' [AbsPath out] \<in> set (snd (tagging w prog out)))"
  by (auto simp: tagging_def Let_def split: opened.splits)

theorem tagging_open_failure_witness:
  "tagging (demo_detached (OpenFailed ''too many open files'')) (demo_prog ''202401010500'')
     \<lparr>FileBaseName = ''News'', AbsPath = ''/out/News.aac'', AudioFormat = ''aac''\<rparr>
   = (Panicked NilPointer,
      [TagOpen ''/out/News.aac'',
       Log ''error while opening the output file: %s'' [''too many open files'']])"
proof -
  have "id3v2_Open (demo_detached (OpenFailed ''too many open files'')) = OpenFailed ''too many open files''"
    by (simp add: demo_detached_def)
  with tagging_open_failure
    [of "demo_detached (OpenFailed ''too many open files'')" "''too many open files''"
        "demo_prog ''202401010500''"
        "\<lparr>FileBaseName = ''News'', AbsPath = ''/out/News.aac'', AudioFormat = ''aac''\<rparr>"]
  show ?thesis by simp
qed

end
